theory Spec2Isabelle
  imports Complex_Main "HOL-Library.Log_Nat" "HOL-Library.Word"
begin

section \<open>Text\<close>

text \<open>
  File names, exam codes and document-type tags are modelled as \<^typ>\<open>string\<close>.
  One \<^typ>\<open>char\<close> stands for one character of the ASCII range; a character outside
  ASCII is carried as its UTF-8 bytes. On ASCII text \<open>lower\<close> is Python's
  \<^verbatim>\<open>str.lower\<close> and the matching of a literal is that of \<^verbatim>\<open>re.IGNORECASE\<close>.
  The case mapping of characters outside ASCII is not modelled: their bytes are left
  alone and match themselves only.
\<close>

definition lower_char :: "char \<Rightarrow> char" where
  "lower_char c =
     (let n = (of_char c :: nat) in if 65 \<le> n \<and> n \<le> 90 then char_of (n + 32) else c)"

text \<open>Python's \<^verbatim>\<open>str.lower\<close>.\<close>

definition lower :: "string \<Rightarrow> string" where
  "lower s = map lower_char s"

fun starts_with :: "string \<Rightarrow> string \<Rightarrow> bool" where
  "starts_with s [] = True"
| "starts_with [] (w # ws) = False"
| "starts_with (c # cs) (w # ws) = (c = w \<and> starts_with cs ws)"

text \<open>Python's \<^verbatim>\<open>word in s\<close> on strings: \<open>word\<close> occurs in \<open>s\<close> as a substring.\<close>

fun contains :: "string \<Rightarrow> string \<Rightarrow> bool" where
  "contains [] w = (w = [])"
| "contains (c # cs) w = (starts_with (c # cs) w \<or> contains cs w)"

section \<open>Regular expressions of the classifier\<close>

text \<open>
  The patterns of the classifier use literal characters, \<^verbatim>\<open>.\<close>, \<^verbatim>\<open>*\<close>,
  \<^verbatim>\<open>{4}\<close>, concatenation and \<^verbatim>\<open>|\<close> only. For such patterns
  \<^verbatim>\<open>re.search\<close> finds a match exactly when some substring of the subject belongs to
  the language of the pattern, which is what \<open>re_search\<close> decides with derivatives.
  Under \<^verbatim>\<open>re.IGNORECASE\<close> a literal matches a character when both agree after case
  folding; \<^verbatim>\<open>.\<close> matches every character but the line feed.
\<close>

datatype regex =
    Fail
  | Eps
  | Chr char
  | Dot
  | Cat regex regex
  | Alt regex regex
  | Star regex

fun nullable :: "regex \<Rightarrow> bool" where
  "nullable Fail = False"
| "nullable Eps = True"
| "nullable (Chr c) = False"
| "nullable Dot = False"
| "nullable (Cat r s) = (nullable r \<and> nullable s)"
| "nullable (Alt r s) = (nullable r \<or> nullable s)"
| "nullable (Star r) = True"

text \<open>Concatenation and alternative that drop a branch which can no longer match.\<close>

fun cat :: "regex \<Rightarrow> regex \<Rightarrow> regex" where
  "cat Fail s = Fail"
| "cat Eps s = s"
| "cat r s = Cat r s"

fun alt :: "regex \<Rightarrow> regex \<Rightarrow> regex" where
  "alt Fail s = s"
| "alt r Fail = r"
| "alt r s = Alt r s"

fun deriv :: "char \<Rightarrow> regex \<Rightarrow> regex" where
  "deriv x Fail = Fail"
| "deriv x Eps = Fail"
| "deriv x (Chr c) = (if lower_char x = lower_char c then Eps else Fail)"
| "deriv x Dot = (if x = CHR 0x0A then Fail else Eps)"
| "deriv x (Cat r s) =
     (if nullable r then alt (cat (deriv x r) s) (deriv x s) else cat (deriv x r) s)"
| "deriv x (Alt r s) = alt (deriv x r) (deriv x s)"
| "deriv x (Star r) = cat (deriv x r) (Star r)"

text \<open>Some prefix of the subject matches the pattern.\<close>

fun match_prefix :: "regex \<Rightarrow> string \<Rightarrow> bool" where
  "match_prefix r [] = nullable r"
| "match_prefix r (x # xs) =
     (if nullable r then True
      else if r = Fail then False
      else match_prefix (deriv x r) xs)"

text \<open>\<^verbatim>\<open>re.search(pattern, s, re.IGNORECASE) is not None\<close>: a match starts somewhere.\<close>

fun re_search :: "regex \<Rightarrow> string \<Rightarrow> bool" where
  "re_search r [] = nullable r"
| "re_search r (x # xs) = (if match_prefix r (x # xs) then True else re_search r xs)"

definition word :: "string \<Rightarrow> regex" where
  "word w = foldr (\<lambda>c r. Cat (Chr c) r) w Eps"

fun cats :: "regex list \<Rightarrow> regex" where
  "cats [] = Eps"
| "cats [r] = r"
| "cats (r # rs) = Cat r (cats rs)"

text \<open>\<^verbatim>\<open>a.*b\<close> for two literal words.\<close>

definition gap :: "string \<Rightarrow> string \<Rightarrow> regex" where
  "gap a b = cats [word a, Star Dot, word b]"

subsection \<open>The language of a pattern\<close>

inductive_set star :: "string set \<Rightarrow> string set" for A :: "string set" where
  star_empty: "[] \<in> star A"
| star_step: "u \<in> A \<Longrightarrow> v \<in> star A \<Longrightarrow> u @ v \<in> star A"

fun lang :: "regex \<Rightarrow> string set" where
  "lang Fail = {}"
| "lang Eps = {[]}"
| "lang (Chr c) = {[x] | x. lower_char x = lower_char c}"
| "lang Dot = {[x] | x. x \<noteq> CHR 0x0A}"
| "lang (Cat r s) = {u @ v | u v. u \<in> lang r \<and> v \<in> lang s}"
| "lang (Alt r s) = lang r \<union> lang s"
| "lang (Star r) = star (lang r)"

section \<open>Pattern classifier\<close>

text \<open>
  The table \<^verbatim>\<open>DocumentAnalyzer.document_patterns\<close>, in the order of the dictionary
  literal (a Python dictionary iterates in insertion order). The Python program is the
  value of a JavaScript template literal, in which \<^verbatim>\<open>\d\<close> and \<^verbatim>\<open>\s\<close> are
  the letters \<^verbatim>\<open>d\<close> and \<^verbatim>\<open>s\<close>: the second pattern of \<^verbatim>\<open>aadhaar\<close> reaches
  Python as \<^verbatim>\<open>d{4}s*d{4}s*d{4}\<close>. The first pattern's second alternative is the
  Devanagari word, given by its UTF-8 bytes.
\<close>

definition devanagari_aadhaar :: string where
  "devanagari_aadhaar =
     [CHR 0xE0, CHR 0xA4, CHR 0x86, CHR 0xE0, CHR 0xA4, CHR 0xA7,
      CHR 0xE0, CHR 0xA4, CHR 0xBE, CHR 0xE0, CHR 0xA4, CHR 0xB0]"

definition document_patterns :: "(string \<times> regex list) list" where
  "document_patterns =
    [(''aadhaar'',
        [Alt (word ''aadhaar'') (word devanagari_aadhaar),
         cats [word ''dddd'', Star (Chr CHR ''s''), word ''dddd'', Star (Chr CHR ''s''),
               word ''dddd''],
         word ''government of india'',
         word ''unique identification authority'']),
     (''photo'',
        [Alt (word ''photograph'') (word ''photo''),
         gap ''passport'' ''size'',
         gap ''recent'' ''photo'']),
     (''signature'',
        [Alt (word ''signature'') (word ''sign''),
         gap ''specimen'' ''signature'',
         gap ''thumb'' ''impression'']),
     (''marksheet'',
        [Alt (gap ''mark'' ''sheet'') (word ''marksheet''),
         Alt (gap ''grade'' ''sheet'') (word ''gradesheet''),
         word ''transcript'',
         gap ''examination'' ''result'',
         gap ''board'' ''examination'']),
     (''certificate'',
        [word ''certificate'',
         word ''diploma'',
         word ''degree'',
         word ''graduation'',
         gap ''post'' ''graduation'']),
     (''caste_certificate'',
        [gap ''caste'' ''certificate'',
         gap ''community'' ''certificate'',
         Alt (Alt (gap ''sc'' ''certificate'') (gap ''st'' ''certificate''))
             (gap ''obc'' ''certificate''),
         gap ''backward'' ''class'']),
     (''income_certificate'',
        [gap ''income'' ''certificate'',
         gap ''annual'' ''income'',
         gap ''salary'' ''certificate''])]"

text \<open>The inner loop: \<^verbatim>\<open>for pattern in patterns: if re.search(...): return doc_type\<close>.\<close>

fun search_patterns :: "regex list \<Rightarrow> string \<Rightarrow> bool" where
  "search_patterns [] s = False"
| "search_patterns (pattern # patterns) s =
     (if re_search pattern s then True else search_patterns patterns s)"

text \<open>The outer loop over the items of the table; \<open>None\<close> when it runs to its end.\<close>

fun scan_rules :: "(string \<times> regex list) list \<Rightarrow> string \<Rightarrow> string option" where
  "scan_rules [] s = None"
| "scan_rules ((doc_type, patterns) # rules) s =
     (if search_patterns patterns s then Some doc_type else scan_rules rules s)"

text \<open>\<^verbatim>\<open>any(word in filename_lower for word in words)\<close>.\<close>

definition any_word :: "string \<Rightarrow> string list \<Rightarrow> bool" where
  "any_word filename_lower ws = list_ex (\<lambda>w. contains filename_lower w) ws"

definition analyze_document_type :: "string \<Rightarrow> string" where
  "analyze_document_type filename =
     (let filename_lower = lower filename in
      case scan_rules document_patterns filename_lower of
        Some doc_type \<Rightarrow> doc_type
      | None \<Rightarrow>
          if any_word filename_lower [''photo'', ''pic'', ''image'', ''passport''] then ''photo''
          else if any_word filename_lower [''sign'', ''signature''] then ''signature''
          else if any_word filename_lower [''mark'', ''grade'', ''result''] then ''marksheet''
          else if any_word filename_lower [''cert'', ''certificate''] then ''certificate''
          else if any_word filename_lower [''aadhaar'', ''aadhar'', ''uid''] then ''aadhaar''
          else ''document'')"

subsection \<open>The classifier as the specification words it\<close>





text \<open>The document-type tags.\<close>

definition document_types :: "string list" where
  "document_types =
    [''aadhaar'', ''photo'', ''signature'', ''marksheet'', ''certificate'',
     ''caste_certificate'', ''income_certificate'', ''document'']"

section \<open>File names\<close>

definition digit_char :: "nat \<Rightarrow> char" where
  "digit_char d = char_of (48 + d)"

text \<open>Decimal rendering of a Python integer inside an f-string.\<close>

function str_nat :: "nat \<Rightarrow> string" where
  "str_nat n = (if n < 10 then [digit_char n] else str_nat (n div 10) @ [digit_char (n mod 10)])"
  by pat_completeness auto
termination
  by (relation "measure (\<lambda>n. n)") auto

declare str_nat.simps [simp del]

definition str_int :: "int \<Rightarrow> string" where
  "str_int i = (if i < 0 then ''-'' @ str_nat (nat (- i)) else str_nat (nat i))"

definition type_mapping :: "string \<Rightarrow> (string \<times> string) list" where
  "type_mapping exam_code =
    [(''photo'', exam_code @ ''_photograph''),
     (''signature'', exam_code @ ''_signature''),
     (''aadhaar'', exam_code @ ''_aadhaar_card''),
     (''marksheet'', exam_code @ ''_marksheet''),
     (''certificate'', exam_code @ ''_certificate''),
     (''caste_certificate'', exam_code @ ''_caste_certificate''),
     (''income_certificate'', exam_code @ ''_income_certificate''),
     (''document'', exam_code @ ''_document'')]"

definition generate_new_filename :: "string \<Rightarrow> string \<Rightarrow> int \<Rightarrow> string" where
  "generate_new_filename detected_type exam_code index =
     (let base_name =
            (case map_of (type_mapping exam_code) detected_type of
               Some v \<Rightarrow> v
             | None \<Rightarrow> exam_code @ ''_document'')
      in if index > 0 then base_name @ ''_'' @ str_int (index + 1) else base_name)"

text \<open>The stems of \<^verbatim>\<open>type_mapping\<close> without the exam code.\<close>

definition type_nouns :: "(string \<times> string) list" where
  "type_nouns =
    [(''photo'', ''photograph''),
     (''signature'', ''signature''),
     (''aadhaar'', ''aadhaar_card''),
     (''marksheet'', ''marksheet''),
     (''certificate'', ''certificate''),
     (''caste_certificate'', ''caste_certificate''),
     (''income_certificate'', ''income_certificate''),
     (''document'', ''document'')]"

section \<open>The classification worker\<close>

text \<open>
  The worker answers an \<^verbatim>\<open>analyze\<close> request by running, for the file at position
  \<open>i\<close>, the Python expressions
  \<^verbatim>\<open>analyzer.analyze_document_type("<name>")\<close> and
  \<^verbatim>\<open>analyzer.generate_new_filename("<detectedType>", "<examCode>", i)\<close>,
  the texts being pasted between the double quotes. A pasted text denotes itself when it
  has no double quote, backslash, line break or NUL; for any other text the Python program
  that runs is a different one, which this model does not follow (\<open>None\<close>).
\<close>

definition py_literal :: "string \<Rightarrow> string option" where
  "py_literal t =
     (if list_all (\<lambda>c. c \<notin> {CHR 0x22, CHR 0x5C, CHR 0x0A, CHR 0x0D, CHR 0x00}) t
      then Some t else None)"

text \<open>JavaScript's \<^verbatim>\<open>s.split(d)\<close> for a one-character separator.\<close>

fun split_char :: "char \<Rightarrow> string \<Rightarrow> string list" where
  "split_char d [] = [[]]"
| "split_char d (c # cs) =
     (if c = d then [] # split_char d cs
      else (case split_char d cs of
              p # ps \<Rightarrow> (c # p) # ps
            | [] \<Rightarrow> [[c]]))"

text \<open>\<^verbatim>\<open>name.split('.').pop()\<close>: what follows the last dot, or the whole name.\<close>

definition extension :: "string \<Rightarrow> string" where
  "extension name = last (split_char CHR ''.'' name)"

record worker_file =
  wf_id :: string
  wf_name :: string

record analysis =
  an_id :: string
  an_originalName :: string
  an_detectedType :: string
  an_newName :: string

text \<open>The loop \<^verbatim>\<open>for (let i = 0; i < files.length; i++)\<close>, from position \<open>i\<close> on.\<close>

fun analyze_from :: "string \<Rightarrow> nat \<Rightarrow> worker_file list \<Rightarrow> analysis list option" where
  "analyze_from examCode i [] = Some []"
| "analyze_from examCode i (file # files) =
     (case py_literal (wf_name file) of
        None \<Rightarrow> None
      | Some name \<Rightarrow>
          let detectedType = analyze_document_type name in
          (case (py_literal detectedType, py_literal examCode) of
             (Some detected_type, Some exam_code) \<Rightarrow>
               let newName = generate_new_filename detected_type exam_code (int i) in
               (case analyze_from examCode (i + 1) files of
                  None \<Rightarrow> None
                | Some results \<Rightarrow>
                    Some (\<lparr>an_id = wf_id file, an_originalName = wf_name file,
                           an_detectedType = detectedType,
                           an_newName = newName @ ''.'' @ extension (wf_name file)\<rparr>
                          # results))
           | _ \<Rightarrow> None))"

definition analyze_files :: "string \<Rightarrow> worker_file list \<Rightarrow> analysis list option" where
  "analyze_files examCode files = analyze_from examCode 0 files"

section \<open>Records of the two pipelines\<close>

type_synonym bytes = "8 word list"

text \<open>
  A JavaScript number is an IEEE double; a finite double is carried by its exact rational
  value.
\<close>

type_synonym number = rat

text \<open>
  What a JavaScript \<^verbatim>\<open>catch\<close> or a promise rejection can receive: an instance of
  \<^verbatim>\<open>Error\<close> with its message, the \<^verbatim>\<open>ErrorEvent\<close> of a worker, or any other value.
\<close>

datatype js_thrown = JsError string | JsErrorEvent | JsOther

datatype 'a promise = Unsettled | Resolved 'a | Rejected js_thrown

datatype status = Pending | Processing | Completed | Errored

record blob =
  blob_parts :: bytes
  blob_type :: string

text \<open>
  Modelled from the spec: the type \<^verbatim>\<open>ProcessedFile\<close> is declared in
  \<^verbatim>\<open>src/types\<close>, which is not among the sources. Its fields are those of the
  specification's FileRecord under the names the two services use: \<^verbatim>\<open>id\<close>
  (\<open>file_id\<close>), \<^verbatim>\<open>file\<close> (\<open>file_content\<close>), \<^verbatim>\<open>originalName\<close>,
  \<^verbatim>\<open>detectedType\<close>, \<^verbatim>\<open>newName\<close>, \<^verbatim>\<open>status\<close>
  (\<^verbatim>\<open>pending\<close>, \<^verbatim>\<open>processing\<close>, \<^verbatim>\<open>completed\<close>, \<^verbatim>\<open>error\<close>),
  \<^verbatim>\<open>progress\<close>, \<^verbatim>\<open>error\<close> (\<open>error_text\<close>) and \<^verbatim>\<open>formattedFile\<close>.
  The \<^verbatim>\<open>File\<close> object is represented by what its \<^verbatim>\<open>arrayBuffer()\<close> settles
  with: the bytes, or the value it rejects with.
\<close>

record processed_file =
  file_id :: string
  file_content :: "js_thrown + bytes"
  originalName :: string
  detectedType :: "string option"
  newName :: "string option"
  status :: status
  progress :: number
  error_text :: "string option"
  formattedFile :: "blob option"

section \<open>The classification channel\<close>

text \<open>
  \<^verbatim>\<open>DocumentAnalyzerService\<close> runs on the JavaScript event loop. Its behaviour is a
  transition system whose steps are the tasks of that loop: the promise executor of one
  \<^verbatim>\<open>analyzeDocuments\<close> call, the dispatch of a message or error event of the worker,
  the firing of a timer, and the passing of time. The state holds every call made so far
  with the closure variables of its executor (\<^verbatim>\<open>files\<close>, \<^verbatim>\<open>resolve\<close>/\<^verbatim>\<open>reject\<close>
  as the promise state, \<^verbatim>\<open>timeout\<close>), the call whose closures are currently assigned
  to \<^verbatim>\<open>worker.onmessage\<close> and \<^verbatim>\<open>worker.onerror\<close>, and the requests posted to the
  worker.
\<close>

datatype timer = Armed nat | Cleared | Fired

record call =
  call_files :: "processed_file list"
  call_promise :: "processed_file list promise"
  call_timeout :: timer

text \<open>The payload \<^verbatim>\<open>{type: 'analyze', data: {files, examCode}}\<close>.\<close>

record request =
  req_files :: "worker_file list"
  req_examCode :: string

text \<open>The payload \<^verbatim>\<open>e.data = {type, data, error}\<close> of a message from the worker.\<close>

datatype worker_message = Result_message "analysis list" | Error_message string | Other_message

record channel =
  worker :: bool
  now :: nat
  calls :: "call list"
  handler :: "nat option"
  posted :: "request list"

definition new_channel :: channel where
  "new_channel = \<lparr>worker = False, now = 0, calls = [], handler = None, posted = []\<rparr>"

definition initialize :: "channel \<Rightarrow> channel" where
  "initialize s = (if \<not> worker s then s\<lparr>worker := True, handler := None\<rparr> else s)"

text \<open>\<^verbatim>\<open>resolve\<close>, \<^verbatim>\<open>reject\<close> and \<^verbatim>\<open>clearTimeout\<close> of call \<open>c\<close>.\<close>

definition settle :: "processed_file list promise \<Rightarrow> call \<Rightarrow> call" where
  "settle p k = (if call_promise k = Unsettled then k\<lparr>call_promise := p\<rparr> else k)"

definition resolve :: "nat \<Rightarrow> processed_file list \<Rightarrow> channel \<Rightarrow> channel" where
  "resolve c v s = s\<lparr>calls := (calls s)[c := settle (Resolved v) (calls s ! c)]\<rparr>"

definition reject :: "nat \<Rightarrow> js_thrown \<Rightarrow> channel \<Rightarrow> channel" where
  "reject c e s = s\<lparr>calls := (calls s)[c := settle (Rejected e) (calls s ! c)]\<rparr>"

definition clearTimeout :: "nat \<Rightarrow> channel \<Rightarrow> channel" where
  "clearTimeout c s =
     s\<lparr>calls := (calls s)[c := (let k = calls s ! c in
        case call_timeout k of Armed due \<Rightarrow> k\<lparr>call_timeout := Cleared\<rparr> | _ \<Rightarrow> k)]\<rparr>"

text \<open>\<^verbatim>\<open>data.find(r => r.id === file.id)\<close> and the object spread that follows it.\<close>

definition merge_result :: "analysis list \<Rightarrow> processed_file \<Rightarrow> processed_file" where
  "merge_result data f =
     (case find (\<lambda>r. an_id r = file_id f) data of
        Some result \<Rightarrow>
          f\<lparr>detectedType := Some (an_detectedType result),
            newName := Some (an_newName result),
            status := Completed\<rparr>
      | None \<Rightarrow> f)"

text \<open>
  The promise executor of \<^verbatim>\<open>analyzeDocuments(files, examCode)\<close>, entered once
  \<^verbatim>\<open>initialize\<close> has run. The new call gets the next index.
\<close>

definition analyzeDocuments :: "processed_file list \<Rightarrow> string \<Rightarrow> channel \<Rightarrow> channel" where
  "analyzeDocuments files examCode s0 =
     (let s = initialize s0; c = length (calls s) in
      if \<not> worker s then
        s\<lparr>calls := calls s @
             [\<lparr>call_files = files,
               call_promise = Rejected (JsError ''Worker not initialized''),
               call_timeout = Cleared\<rparr>]\<rparr>
      else
        s\<lparr>calls := calls s @
             [\<lparr>call_files = files, call_promise = Unsettled,
               call_timeout = Armed (now s + 30000)\<rparr>],
          handler := Some c,
          posted := posted s @
             [\<lparr>req_files = map (\<lambda>f. \<lparr>wf_id = file_id f, wf_name = originalName f\<rparr>) files,
               req_examCode = examCode\<rparr>]\<rparr>)"

text \<open>\<^verbatim>\<open>worker.onmessage\<close> as assigned by call \<open>c\<close>.\<close>

definition onmessage :: "nat \<Rightarrow> worker_message \<Rightarrow> channel \<Rightarrow> channel" where
  "onmessage c m s =
     (let s1 = clearTimeout c s in
      case m of
        Error_message e \<Rightarrow> reject c (JsError e) s1
      | Result_message data \<Rightarrow>
          resolve c (map (merge_result data) (call_files (calls s1 ! c))) s1
      | Other_message \<Rightarrow> s1)"

text \<open>\<^verbatim>\<open>worker.onerror\<close> as assigned by call \<open>c\<close>.\<close>

definition onerror :: "nat \<Rightarrow> channel \<Rightarrow> channel" where
  "onerror c s = reject c JsErrorEvent (clearTimeout c s)"

text \<open>The callback given to \<^verbatim>\<open>setTimeout\<close> by call \<open>c\<close>.\<close>

definition ontimeout :: "nat \<Rightarrow> channel \<Rightarrow> channel" where
  "ontimeout c s =
     reject c (JsError ''Document analysis timeout'')
       (s\<lparr>calls := (calls s)[c := (calls s ! c)\<lparr>call_timeout := Fired\<rparr>]\<rparr>)"

datatype event =
    Call "processed_file list" string
  | Message worker_message
  | Worker_error
  | Timeout nat
  | Tick nat

text \<open>
  One task of the event loop; \<open>None\<close> when the task cannot happen in the state: a timer
  fires only while it is armed and due, and never twice.
\<close>

definition step :: "channel \<Rightarrow> event \<Rightarrow> channel option" where
  "step s e =
     (case e of
        Call files examCode \<Rightarrow> Some (analyzeDocuments files examCode s)
      | Message m \<Rightarrow> (case handler s of None \<Rightarrow> Some s | Some c \<Rightarrow> Some (onmessage c m s))
      | Worker_error \<Rightarrow> (case handler s of None \<Rightarrow> Some s | Some c \<Rightarrow> Some (onerror c s))
      | Timeout c \<Rightarrow>
          (if c < length (calls s) then
             (case call_timeout (calls s ! c) of
                Armed due \<Rightarrow> if due \<le> now s then Some (ontimeout c s) else None
              | _ \<Rightarrow> None)
           else None)
      | Tick dt \<Rightarrow> Some (s\<lparr>now := now s + dt\<rparr>))"

fun run :: "channel \<Rightarrow> event list \<Rightarrow> channel option" where
  "run s [] = Some s"
| "run s (e # es) = (case step s e of None \<Rightarrow> None | Some s' \<Rightarrow> run s' es)"

text \<open>An event by which the worker answers: a message or an error.\<close>

fun is_response :: "event \<Rightarrow> bool" where
  "is_response (Message m) = True"
| "is_response Worker_error = True"
| "is_response _ = False"

definition promise_of :: "nat \<Rightarrow> channel \<Rightarrow> processed_file list promise" where
  "promise_of c s = call_promise (calls s ! c)"

section \<open>Two sample records\<close>

definition sample_photo :: processed_file where
  "sample_photo =
     \<lparr>file_id = ''f1'', file_content = Inr [1, 2, 3], originalName = ''photo.jpg'',
      detectedType = None, newName = None, status = Pending, progress = 0,
      error_text = None, formattedFile = None\<rparr>"

definition sample_sign :: processed_file where
  "sample_sign =
     \<lparr>file_id = ''f2'', file_content = Inr [4, 5], originalName = ''sign.png'',
      detectedType = None, newName = None, status = Pending, progress = 0,
      error_text = None, formattedFile = None\<rparr>"

definition sample_photo_result :: analysis where
  "sample_photo_result =
     \<lparr>an_id = ''f1'', an_originalName = ''photo.jpg'', an_detectedType = ''photo'',
      an_newName = ''EX01_photograph.jpg''\<rparr>"

section \<open>JavaScript numbers\<close>

text \<open>
  Arithmetic on doubles is the exact operation followed by rounding to the nearest double,
  ties to the even significand. A double has a significand of 53 bits: in the binade
  \<open>[2\<^sup>e, 2\<^sup>e\<^sup>+\<^sup>1)\<close> the doubles are the multiples of \<open>2\<^sup>e\<^sup>-\<^sup>5\<^sup>2\<close>. The exponent range of
  doubles (overflow to infinity, subnormal numbers) is not modelled; the quotients and
  products formed by the services stay far inside it.
\<close>

definition pow2 :: "int \<Rightarrow> rat" where
  "pow2 e = (if 0 \<le> e then 2 ^ nat e else 1 / 2 ^ nat (- e))"

text \<open>The exponent \<open>e\<close> with \<open>2\<^sup>e \<le> x < 2\<^sup>e\<^sup>+\<^sup>1\<close>, for positive \<open>x\<close>.\<close>

definition binade :: "rat \<Rightarrow> int" where
  "binade x =
     (let (p, q) = quotient_of x; e = bitlen p - bitlen q
      in if pow2 e \<le> x then e else e - 1)"

definition round_half_even :: "rat \<Rightarrow> int" where
  "round_half_even x =
     (let n = \<lfloor>x\<rfloor>; d = x - of_int n
      in if d < 1 / 2 then n
         else if 1 / 2 < d then n + 1
         else if even n then n else n + 1)"

definition to_double :: "rat \<Rightarrow> number" where
  "to_double x =
     (if x = 0 then 0
      else let u = pow2 (binade \<bar>x\<bar> - 52) in of_int (round_half_even (x / u)) * u)"

text \<open>\<^verbatim>\<open>a / b\<close> and \<^verbatim>\<open>a * b\<close> on numbers, for a divisor other than zero.\<close>

definition js_div :: "number \<Rightarrow> number \<Rightarrow> number" where
  "js_div a b = to_double (a / b)"

definition js_mul :: "number \<Rightarrow> number \<Rightarrow> number" where
  "js_mul a b = to_double (a * b)"

text \<open>The argument \<^verbatim>\<open>(i / total) * 100\<close> of the progress callback.\<close>

definition percent :: "nat \<Rightarrow> nat \<Rightarrow> number" where
  "percent i total_n = js_mul (js_div (of_nat i) (of_nat total_n)) 100"

section \<open>The formatting orchestrator\<close>

text \<open>
  Modelled from the spec: the type \<^verbatim>\<open>ExamConfig\<close> is declared in \<^verbatim>\<open>src/types\<close>,
  which is not among the sources. It carries the exam code (\<^verbatim>\<open>examCode\<close>, here
  \<open>cfg_examCode\<close>) and, for each of the categories
  photo, signature and documents, an output format; the service reads
  \<^verbatim>\<open>examConfig.formats.photo.format\<close> and its two siblings.
\<close>

record format_spec =
  format :: string

record format_table =
  photo :: format_spec
  signature :: format_spec
  documents :: format_spec

record exam_config =
  cfg_examCode :: string
  formats :: format_table

text \<open>
  The conversion engine is the WebAssembly module \<^verbatim>\<open>rust-formatter\<close>, which is not
  among the sources. It is a parameter of the model: \<open>set_config\<close> returns normally
  (\<open>None\<close>) or throws, and \<open>format_document\<close>, under the configuration that was set,
  returns the converted bytes or throws.
\<close>

record engine =
  set_config :: "exam_config \<Rightarrow> js_thrown option"
  format_document ::
    "exam_config \<Rightarrow> bytes \<Rightarrow> string option \<Rightarrow> string \<Rightarrow> js_thrown + bytes"

text \<open>
  The state of \<^verbatim>\<open>RustFormatterService\<close>: \<^verbatim>\<open>wasmModule\<close> and \<^verbatim>\<open>formatter\<close>
  are set together, so one field stands for both. \<open>load\<close> is what importing and
  instantiating the module yields.
\<close>

record formatter_service =
  formatter :: "engine option"

text \<open>
  \<^verbatim>\<open>if (!this.formatter) await this.initialize()\<close>: the formatter in use and the
  service afterwards, or what the import throws.
\<close>

definition load_formatter ::
  "js_thrown + engine \<Rightarrow> formatter_service \<Rightarrow> js_thrown + engine \<times> formatter_service"
  where
  "load_formatter load svc =
     (case formatter svc of
        Some eng \<Rightarrow> Inr (eng, svc)
      | None \<Rightarrow>
          (case load of
             Inl e \<Rightarrow> Inl e
           | Inr eng \<Rightarrow> Inr (eng, svc\<lparr>formatter := Some eng\<rparr>)))"

definition getOutputMimeType :: "string option \<Rightarrow> exam_config \<Rightarrow> string" where
  "getOutputMimeType documentType examConfig =
     (let fmt =
            (if documentType = Some ''photo'' then format (photo (formats examConfig))
             else if documentType = Some ''signature''
               then format (signature (formats examConfig))
             else format (documents (formats examConfig)))
      in if fmt = ''JPEG'' then ''image/jpeg''
         else if fmt = ''PNG'' then ''image/png''
         else if fmt = ''PDF'' then ''application/pdf''
         else ''image/jpeg'')"

text \<open>
  What the service does that its caller and collaborators can observe, in order: a call
  of the progress callback with its argument, and the start of the work on the record at
  a position (the read of its bytes).
\<close>

datatype effect = Progress number | Process nat

record format_run =
  formattedFiles :: "processed_file list"
  effects :: "effect list"

text \<open>\<^verbatim>\<open>error instanceof Error ? error.message : 'Unknown error'\<close>.\<close>

definition error_message :: "js_thrown \<Rightarrow> string" where
  "error_message e = (case e of JsError m \<Rightarrow> m | _ \<Rightarrow> ''Unknown error'')"

text \<open>The two objects pushed by the loop body.\<close>

definition completed_file :: "exam_config \<Rightarrow> bytes \<Rightarrow> processed_file \<Rightarrow> processed_file" where
  "completed_file examConfig formattedData f =
     f\<lparr>status := Completed, progress := 100,
       formattedFile :=
         Some \<lparr>blob_parts = formattedData,
               blob_type = getOutputMimeType (detectedType f) examConfig\<rparr>\<rparr>"

definition failed_file :: "js_thrown \<Rightarrow> processed_file \<Rightarrow> processed_file" where
  "failed_file e f = f\<lparr>status := Errored, error_text := Some (error_message e)\<rparr>"

text \<open>
  Reading the bytes of a record and converting them: the two steps of the loop body that
  can throw. The progress callback is taken to return normally.
\<close>

definition convert :: "engine \<Rightarrow> exam_config \<Rightarrow> processed_file \<Rightarrow> js_thrown + bytes" where
  "convert eng examConfig f =
     (case file_content f of
        Inl e \<Rightarrow> Inl e
      | Inr uint8Array \<Rightarrow>
          format_document eng examConfig uint8Array (detectedType f) (originalName f))"

text \<open>The record pushed for a file: \<^verbatim>\<open>try { ... } catch (error) { ... }\<close>.\<close>

definition format_record :: "engine \<Rightarrow> exam_config \<Rightarrow> processed_file \<Rightarrow> processed_file" where
  "format_record eng examConfig f =
     (case convert eng examConfig f of
        Inr formattedData \<Rightarrow> completed_file examConfig formattedData f
      | Inl e \<Rightarrow> failed_file e f)"

text \<open>The body of the loop for position \<open>i\<close>.\<close>

definition format_step ::
  "engine \<Rightarrow> exam_config \<Rightarrow> bool \<Rightarrow> nat \<Rightarrow> nat \<Rightarrow> processed_file \<Rightarrow> format_run \<Rightarrow> format_run"
  where
  "format_step eng examConfig onProgress total_n i f r =
     (let reported = (if onProgress then [Progress (percent i total_n)] else [])
      in \<lparr>formattedFiles = formattedFiles r @ [format_record eng examConfig f],
          effects = effects r @ reported @ [Process i]\<rparr>)"

text \<open>\<^verbatim>\<open>for (let i = 0; i < files.length; i++)\<close>, from position \<open>i\<close> on.\<close>

function format_loop ::
  "engine \<Rightarrow> exam_config \<Rightarrow> bool \<Rightarrow> processed_file list \<Rightarrow> nat \<Rightarrow> format_run \<Rightarrow> format_run"
  where
  "format_loop eng examConfig onProgress files i r =
     (if i < length files
      then format_loop eng examConfig onProgress files (i + 1)
             (format_step eng examConfig onProgress (length files) i (files ! i) r)
      else r)"
  by pat_completeness auto
termination
  by (relation "measure (\<lambda>(eng, examConfig, onProgress, files, i, r). length files - i)") auto

declare format_loop.simps [simp del]

record format_outcome =
  returned :: "processed_file list promise"
  observed :: "effect list"
  service :: formatter_service

text \<open>
  \<^verbatim>\<open>formatDocuments(files, examConfig, onProgress)\<close>; \<open>onProgress\<close> tells whether the
  callback was supplied.
\<close>

definition formatDocuments ::
  "js_thrown + engine \<Rightarrow> formatter_service \<Rightarrow> processed_file list \<Rightarrow> exam_config \<Rightarrow> bool
     \<Rightarrow> format_outcome" where
  "formatDocuments load svc files examConfig onProgress =
     (case load_formatter load svc of
        Inl e \<Rightarrow> \<lparr>returned = Rejected e, observed = [], service = svc\<rparr>
      | Inr (eng, svc1) \<Rightarrow>
          (case set_config eng examConfig of
             Some e \<Rightarrow> \<lparr>returned = Rejected e, observed = [], service = svc1\<rparr>
           | None \<Rightarrow>
               let r = format_loop eng examConfig onProgress files 0
                         \<lparr>formattedFiles = [], effects = []\<rparr>
               in \<lparr>returned = Resolved (formattedFiles r),
                   observed = effects r @ (if onProgress then [Progress 100] else []),
                   service = svc1\<rparr>))"

text \<open>The engine is there, or can be loaded, and accepts the configuration.\<close>

definition engine_ready ::
  "js_thrown + engine \<Rightarrow> formatter_service \<Rightarrow> exam_config \<Rightarrow> engine \<Rightarrow> bool" where
  "engine_ready load svc examConfig eng \<longleftrightarrow>
     (formatter svc = Some eng \<or> (formatter svc = None \<and> load = Inr eng))
     \<and> set_config eng examConfig = None"

text \<open>The values passed to the progress callback, in order.\<close>

fun progress_values :: "effect list \<Rightarrow> number list" where
  "progress_values [] = []"
| "progress_values (Progress v # es) = v # progress_values es"
| "progress_values (Process i # es) = progress_values es"

text \<open>Sample classified records, configuration and engines.\<close>

definition classified_photo :: processed_file where
  "classified_photo =
     sample_photo\<lparr>detectedType := Some ''photo'', newName := Some ''EX01_photograph.jpg'',
                   status := Completed\<rparr>"

definition classified_sign :: processed_file where
  "classified_sign =
     sample_sign\<lparr>detectedType := Some ''signature'', newName := Some ''EX01_signature_2.png'',
                  status := Completed\<rparr>"

definition sample_config :: exam_config where
  "sample_config =
     \<lparr>cfg_examCode = ''EX01'',
      formats = \<lparr>photo = \<lparr>format = ''JPEG''\<rparr>, signature = \<lparr>format = ''PNG''\<rparr>,
                 documents = \<lparr>format = ''PDF''\<rparr>\<rparr>\<rparr>"

text \<open>An engine that returns the bytes unchanged and rejects \<^verbatim>\<open>sign.png\<close>.\<close>

definition sample_engine :: engine where
  "sample_engine =
     \<lparr>set_config = (\<lambda>c. None),
      format_document =
        (\<lambda>c b t name. if name = ''sign.png'' then Inl (JsError ''unsupported image'')
                       else Inr b)\<rparr>"

text \<open>An engine that returns no bytes and throws an \<^verbatim>\<open>Error\<close> without message.\<close>

definition terse_engine :: engine where
  "terse_engine =
     \<lparr>set_config = (\<lambda>c. None),
      format_document =
        (\<lambda>c b t name. if name = ''sign.png'' then Inl (JsError []) else Inr [])\<rparr>"

section \<open>Properties of the text primitives and of the pattern search\<close>

lemma starts_with_iff: "starts_with s w \<longleftrightarrow> (\<exists>t. s = w @ t)"
  by (induction s w rule: starts_with.induct) auto

lemma contains_iff: "contains s w \<longleftrightarrow> (\<exists>u t. s = u @ w @ t)"
proof (induction s)
  case Nil
  then show ?case by auto
next
  case (Cons c cs)
  show ?case
  proof
    assume "contains (c # cs) w"
    then consider "starts_with (c # cs) w" | "contains cs w" by auto
    then show "\<exists>u t. c # cs = u @ w @ t"
    proof cases
      case 1
      then obtain t where "c # cs = [] @ w @ t" by (auto simp: starts_with_iff)
      then show ?thesis by blast
    next
      case 2
      then obtain u t where "cs = u @ w @ t" using Cons by blast
      then have "c # cs = (c # u) @ w @ t" by simp
      then show ?thesis by blast
    qed
  next
    assume "\<exists>u t. c # cs = u @ w @ t"
    then obtain u t where ut: "c # cs = u @ w @ t" by blast
    show "contains (c # cs) w"
    proof (cases u)
      case Nil
      with ut have "c # cs = w @ t" by simp
      then have "starts_with (c # cs) w" unfolding starts_with_iff by blast
      then show ?thesis by simp
    next
      case (Cons y u')
      with ut have "cs = u' @ w @ t" by simp
      then show ?thesis using Cons.IH by auto
    qed
  qed
qed

lemma nullable_lang: "nullable r \<longleftrightarrow> [] \<in> lang r"
  by (induction r) (auto intro: star.intros)

lemma star_cons:
  "x # w \<in> star A \<longleftrightarrow> (\<exists>u v. w = u @ v \<and> x # u \<in> A \<and> v \<in> star A)"
proof
  assume "x # w \<in> star A"
  then show "\<exists>u v. w = u @ v \<and> x # u \<in> A \<and> v \<in> star A"
  proof (induction "x # w" arbitrary: w rule: star.induct)
    case (star_step u v)
    show ?case
    proof (cases u)
      case Nil
      with star_step show ?thesis by simp
    next
      case (Cons y u')
      with star_step show ?thesis by auto
    qed
  qed
next
  assume "\<exists>u v. w = u @ v \<and> x # u \<in> A \<and> v \<in> star A"
  then obtain u v where "w = u @ v" "x # u \<in> A" "v \<in> star A" by blast
  then show "x # w \<in> star A"
    using star_step [of "x # u" A v] by simp
qed

lemma lang_cat: "lang (cat r s) = lang (Cat r s)"
  by (cases r) auto

lemma lang_alt: "lang (alt r s) = lang (Alt r s)"
  by (cases r; cases s) auto

lemma deriv_lang: "w \<in> lang (deriv x r) \<longleftrightarrow> x # w \<in> lang r"
proof (induction r arbitrary: w)
  case (Cat r s)
  show ?case
  proof
    assume "w \<in> lang (deriv x (Cat r s))"
    then show "x # w \<in> lang (Cat r s)"
      using Cat
      by (auto simp: nullable_lang lang_cat lang_alt split: if_splits) (metis append_Cons)+
  next
    assume "x # w \<in> lang (Cat r s)"
    then obtain u v where uv: "x # w = u @ v" "u \<in> lang r" "v \<in> lang s" by auto
    show "w \<in> lang (deriv x (Cat r s))"
    proof (cases u)
      case Nil
      with uv Cat show ?thesis by (auto simp: nullable_lang lang_cat lang_alt)
    next
      case (Cons y u')
      with uv Cat show ?thesis by (auto simp: nullable_lang lang_cat lang_alt)
    qed
  qed
next
  case (Alt r s)
  then show ?case by (simp add: lang_alt)
next
  case (Star r)
  then show ?case by (auto simp: star_cons lang_cat)
qed auto

lemma match_prefix_lang: "match_prefix r s \<longleftrightarrow> (\<exists>v w. s = v @ w \<and> v \<in> lang r)"
proof (induction s arbitrary: r)
  case Nil
  then show ?case by (simp add: nullable_lang)
next
  case (Cons x xs)
  show ?case
  proof
    assume "match_prefix r (x # xs)"
    then consider "nullable r" | "match_prefix (deriv x r) xs" by (auto split: if_splits)
    then show "\<exists>v w. x # xs = v @ w \<and> v \<in> lang r"
    proof cases
      case 1
      then show ?thesis by (auto simp: nullable_lang)
    next
      case 2
      then obtain v w where "xs = v @ w" "v \<in> lang (deriv x r)" using Cons by blast
      then have "x # xs = (x # v) @ w \<and> x # v \<in> lang r" by (simp add: deriv_lang)
      then show ?thesis by blast
    qed
  next
    assume "\<exists>v w. x # xs = v @ w \<and> v \<in> lang r"
    then obtain v w where vw: "x # xs = v @ w" "v \<in> lang r" by blast
    show "match_prefix r (x # xs)"
    proof (cases v)
      case Nil
      with vw have "nullable r" by (simp add: nullable_lang)
      then show ?thesis by simp
    next
      case (Cons y v')
      with vw have "xs = v' @ w" "v' \<in> lang (deriv x r)" by (auto simp: deriv_lang)
      then have "match_prefix (deriv x r) xs" using Cons.IH by blast
      moreover have "r \<noteq> Fail" using vw by auto
      ultimately show ?thesis by simp
    qed
  qed
qed

text \<open>The search finds a match exactly when a substring is in the pattern's language.\<close>

lemma re_search_lang: "re_search r s \<longleftrightarrow> (\<exists>u v w. s = u @ v @ w \<and> v \<in> lang r)"
proof (induction s)
  case Nil
  then show ?case by (simp add: nullable_lang)
next
  case (Cons x xs)
  show ?case
  proof
    assume "re_search r (x # xs)"
    then consider "match_prefix r (x # xs)" | "re_search r xs"
      by (auto simp del: match_prefix.simps split: if_splits)
    then show "\<exists>u v w. x # xs = u @ v @ w \<and> v \<in> lang r"
    proof cases
      case 1
      then obtain v w where "x # xs = v @ w" "v \<in> lang r" by (auto simp: match_prefix_lang)
      then have "x # xs = [] @ v @ w \<and> v \<in> lang r" by simp
      then show ?thesis by blast
    next
      case 2
      then obtain u v w where "xs = u @ v @ w" "v \<in> lang r" using Cons by blast
      then have "x # xs = (x # u) @ v @ w \<and> v \<in> lang r" by simp
      then show ?thesis by blast
    qed
  next
    assume "\<exists>u v w. x # xs = u @ v @ w \<and> v \<in> lang r"
    then obtain u v w where uvw: "x # xs = u @ v @ w" "v \<in> lang r" by blast
    show "re_search r (x # xs)"
    proof (cases u)
      case Nil
      with uvw have "match_prefix r (x # xs)" by (auto simp: match_prefix_lang)
      then show ?thesis by (simp del: match_prefix.simps)
    next
      case (Cons y u')
      with uvw have "xs = u' @ v @ w" by simp
      with uvw have "re_search r xs" using Cons.IH by blast
      then show ?thesis by simp
    qed
  qed
qed

lemma word_Nil: "word [] = Eps"
  by (simp add: word_def)

lemma word_Cons: "word (c # w) = Cat (Chr c) (word w)"
  by (simp add: word_def)

lemma word_self: "w \<in> lang (word w)"
proof (induction w)
  case Nil
  then show ?case by (simp add: word_Nil)
next
  case (Cons c w)
  have "c # w = [c] @ w" by simp
  moreover have "[c] \<in> lang (Chr c)" by simp
  ultimately show ?case using Cons unfolding word_Cons lang.simps by blast
qed

text \<open>A file name that contains a word is found by the word's pattern.\<close>

lemma contains_re_search: "contains s w \<Longrightarrow> re_search (word w) s"
  unfolding contains_iff re_search_lang using word_self by blast

text \<open>A match of \<^verbatim>\<open>a.*b\<close> ends with a match of \<^verbatim>\<open>b\<close>.\<close>

lemma gap_re_search: "re_search (gap a b) s \<Longrightarrow> re_search (word b) s"
proof -
  assume "re_search (gap a b) s"
  then obtain u v w where s: "s = u @ v @ w" and v: "v \<in> lang (gap a b)"
    unfolding re_search_lang by blast
  from v obtain v1 v2 v3 where "v = v1 @ v2 @ v3" "v3 \<in> lang (word b)"
    by (auto simp: gap_def)
  with s have "s = (u @ v1 @ v2) @ v3 @ w \<and> v3 \<in> lang (word b)" by simp
  then show ?thesis unfolding re_search_lang by blast
qed

lemma alt_re_search: "re_search (Alt r1 r2) s \<longleftrightarrow> re_search r1 s \<or> re_search r2 s"
  unfolding re_search_lang lang.simps by blast

section \<open>Properties of the pattern classifier\<close>



lemma scan_rules_append:
  "scan_rules (xs @ ys) s = (case scan_rules xs s of Some t \<Rightarrow> Some t | None \<Rightarrow> scan_rules ys s)"
  by (induction xs) auto

lemma scan_rules_types: "scan_rules rules s = Some t \<Longrightarrow> t \<in> fst ` set rules"
  by (induction rules) (auto split: if_splits)




lemma analyze_in_types: "analyze_document_type filename \<in> set document_types"
proof (cases "scan_rules document_patterns (lower filename)")
  case None
  then show ?thesis
    by (simp add: analyze_document_type_def document_types_def Let_def)
next
  case (Some t)
  then have "t \<in> fst ` set document_patterns" by (rule scan_rules_types)
  then have "t \<in> set document_types"
    by (auto simp: document_patterns_def document_types_def)
  with Some show ?thesis by (simp add: analyze_document_type_def Let_def)
qed





subsection \<open>File names that contain the word certificate\<close>

lemma take4: "take 4 document_patterns @ drop 4 document_patterns = document_patterns"
  by simp

lemma drop4_head:
  "\<exists>ps rest. drop 4 document_patterns = (''certificate'', word ''certificate'' # ps) # rest"
  by (simp add: document_patterns_def)

lemma certificate_word_result:
  assumes "contains (lower filename) ''certificate''"
  shows "analyze_document_type filename =
         (case scan_rules (take 4 document_patterns) (lower filename) of
            Some t \<Rightarrow> t | None \<Rightarrow> ''certificate'')"
proof -
  obtain ps rest where d: "drop 4 document_patterns = (''certificate'', word ''certificate'' # ps) # rest"
    using drop4_head by blast
  have "re_search (word ''certificate'') (lower filename)"
    using assms by (rule contains_re_search)
  then have "scan_rules (drop 4 document_patterns) (lower filename) = Some ''certificate''"
    unfolding d by simp
  moreover have "scan_rules document_patterns (lower filename) =
      (case scan_rules (take 4 document_patterns) (lower filename) of
         Some t \<Rightarrow> Some t | None \<Rightarrow> scan_rules (drop 4 document_patterns) (lower filename))"
    using scan_rules_append [of "take 4 document_patterns" "drop 4 document_patterns"]
    by (simp only: take4)
  ultimately show ?thesis
    by (simp add: analyze_document_type_def Let_def split: option.splits)
qed

lemma take4_types:
  "scan_rules (take 4 document_patterns) s = Some t \<Longrightarrow>
   t \<in> {''aadhaar'', ''photo'', ''signature'', ''marksheet''}"
  by (drule scan_rules_types) (auto simp: document_patterns_def)

lemma fallback_not_late:
  assumes "scan_rules document_patterns (lower filename) = None"
  shows "analyze_document_type filename \<noteq> ''caste_certificate''
       \<and> analyze_document_type filename \<noteq> ''income_certificate''"
  using assms by (simp add: analyze_document_type_def Let_def)

lemma caste_only_backward:
  assumes "analyze_document_type filename = ''caste_certificate''"
  shows "re_search (gap ''backward'' ''class'') (lower filename)
         \<and> \<not> contains (lower filename) ''certificate''"
proof -
  let ?s = "lower filename"
  have some: "scan_rules document_patterns ?s = Some ''caste_certificate''"
  proof (cases "scan_rules document_patterns ?s")
    case None
    with fallback_not_late assms show ?thesis by blast
  next
    case (Some t)
    with assms show ?thesis by (simp add: analyze_document_type_def Let_def)
  qed
  have nocert: "\<not> re_search (word ''certificate'') ?s"
    using some by (auto simp: document_patterns_def split: if_splits)
  have "search_patterns [gap ''caste'' ''certificate'', gap ''community'' ''certificate'',
          Alt (Alt (gap ''sc'' ''certificate'') (gap ''st'' ''certificate''))
              (gap ''obc'' ''certificate''), gap ''backward'' ''class''] ?s"
    using some by (auto simp: document_patterns_def split: if_splits)
  with nocert have "re_search (gap ''backward'' ''class'') ?s"
    by (auto simp: alt_re_search dest: gap_re_search split: if_splits)
  with nocert show ?thesis using contains_re_search by blast
qed

lemma income_only_annual:
  assumes "analyze_document_type filename = ''income_certificate''"
  shows "re_search (gap ''annual'' ''income'') (lower filename)
         \<and> \<not> contains (lower filename) ''certificate''"
proof -
  let ?s = "lower filename"
  have some: "scan_rules document_patterns ?s = Some ''income_certificate''"
  proof (cases "scan_rules document_patterns ?s")
    case None
    with fallback_not_late assms show ?thesis by blast
  next
    case (Some t)
    with assms show ?thesis by (simp add: analyze_document_type_def Let_def)
  qed
  have nocert: "\<not> re_search (word ''certificate'') ?s"
    using some by (auto simp: document_patterns_def split: if_splits)
  have "search_patterns [gap ''income'' ''certificate'', gap ''annual'' ''income'',
          gap ''salary'' ''certificate''] ?s"
    using some by (auto simp: document_patterns_def split: if_splits)
  with nocert have "re_search (gap ''annual'' ''income'') ?s"
    by (auto dest: gap_re_search split: if_splits)
  with nocert show ?thesis using contains_re_search by blast
qed

text \<open>
  C10, as stated, fails: a file name that contains \<^verbatim>\<open>certificate\<close> and also
  matches an earlier rule gets the earlier rule's type.
\<close>

theorem certificate_word_counterexample:
  "contains (lower ''photo certificate'') ''certificate''
   \<and> analyze_document_type ''photo certificate'' = ''photo''
   \<and> analyze_document_type ''photo certificate'' \<noteq> ''certificate''"
  by code_simp

text \<open>
  C10 (amended). For every file name whose lower-casing contains \<^verbatim>\<open>certificate\<close>,
  the classifier returns the type of the first matching rule among the four that precede
  the \<^verbatim>\<open>certificate\<close> rule (aadhaar, photo, signature, marksheet) and
  \<^verbatim>\<open>certificate\<close> when none of them matches; it never returns
  \<^verbatim>\<open>caste_certificate\<close> or \<^verbatim>\<open>income_certificate\<close>. These two types are
  returned only for names without the word, through \<^verbatim>\<open>backward.*class\<close> and
  \<^verbatim>\<open>annual.*income\<close>.
\<close>

theorem certificate_word_stops_at_certificate_rule:
  "(contains (lower filename) ''certificate'' \<longrightarrow>
      analyze_document_type filename =
        (case scan_rules (take 4 document_patterns) (lower filename) of
           Some t \<Rightarrow> t | None \<Rightarrow> ''certificate'')
      \<and> analyze_document_type filename
          \<in> {''aadhaar'', ''photo'', ''signature'', ''marksheet'', ''certificate''})
   \<and> (analyze_document_type filename = ''caste_certificate'' \<longrightarrow>
        re_search (gap ''backward'' ''class'') (lower filename)
        \<and> \<not> contains (lower filename) ''certificate'')
   \<and> (analyze_document_type filename = ''income_certificate'' \<longrightarrow>
        re_search (gap ''annual'' ''income'') (lower filename)
        \<and> \<not> contains (lower filename) ''certificate'')"
proof -
  have "analyze_document_type filename
          \<in> {''aadhaar'', ''photo'', ''signature'', ''marksheet'', ''certificate''}"
    if c: "contains (lower filename) ''certificate''"
  proof (cases "scan_rules (take 4 document_patterns) (lower filename)")
    case None
    with certificate_word_result [OF c] show ?thesis by simp
  next
    case (Some t)
    with certificate_word_result [OF c] take4_types [OF Some] show ?thesis by auto
  qed
  then show ?thesis
    using certificate_word_result caste_only_backward income_only_annual by blast
qed

theorem certificate_word_stops_at_certificate_rule_witness:
  "contains (lower ''Certificate'') ''certificate''
   \<and> analyze_document_type ''Certificate'' = ''certificate''
   \<and> analyze_document_type ''backward class'' = ''caste_certificate''
   \<and> re_search (gap ''backward'' ''class'') (lower ''backward class'')
   \<and> analyze_document_type ''annual income'' = ''income_certificate''
   \<and> re_search (gap ''annual'' ''income'') (lower ''annual income'')"
proof -
  have c: "contains (lower ''Certificate'') ''certificate''" by code_simp
  have n: "scan_rules (take 4 document_patterns) (lower ''Certificate'') = None"
    by code_simp
  have b: "analyze_document_type ''backward class'' = ''caste_certificate''" by code_simp
  have a: "analyze_document_type ''annual income'' = ''income_certificate''" by code_simp
  from certificate_word_stops_at_certificate_rule [of "''Certificate''"] c n
  have "analyze_document_type ''Certificate'' = ''certificate''" by simp
  moreover from certificate_word_stops_at_certificate_rule [of "''backward class''"] b
  have "re_search (gap ''backward'' ''class'') (lower ''backward class'')" by blast
  moreover from certificate_word_stops_at_certificate_rule [of "''annual income''"] a
  have "re_search (gap ''annual'' ''income'') (lower ''annual income'')" by blast
  ultimately show ?thesis using c a b by blast
qed

section \<open>Properties of the file-name generator and of the worker loop\<close>

lemma type_mapping_nouns:
  "map_of (type_mapping exam_code) t =
   map_option (\<lambda>n. exam_code @ ''_'' @ n) (map_of type_nouns t)"
  by (simp add: type_mapping_def type_nouns_def)

lemma generate_new_filename_shape:
  "generate_new_filename t exam_code i =
     exam_code @ ''_'' @ (case map_of type_nouns t of Some n \<Rightarrow> n | None \<Rightarrow> ''document'')
     @ (if i > 0 then ''_'' @ str_int (i + 1) else [])"
  by (simp add: generate_new_filename_def type_mapping_nouns Let_def split: option.splits)

lemma py_literal_Some: "py_literal t = Some t' \<Longrightarrow> t' = t"
  by (simp add: py_literal_def split: if_splits)

lemma py_literal_types: "t \<in> set document_types \<Longrightarrow> py_literal t = Some t"
  by (auto simp: document_types_def py_literal_def)

lemma py_literal_detected:
  "py_literal (analyze_document_type name) = Some (analyze_document_type name)"
  using analyze_in_types by (rule py_literal_types)

lemma analyze_from_positions:
  "analyze_from examCode i files = Some results \<Longrightarrow>
   length results = length files
   \<and> (\<forall>k < length files.
        results ! k =
          \<lparr>an_id = wf_id (files ! k), an_originalName = wf_name (files ! k),
            an_detectedType = analyze_document_type (wf_name (files ! k)),
            an_newName =
              generate_new_filename (analyze_document_type (wf_name (files ! k))) examCode
                (int (i + k))
              @ ''.'' @ extension (wf_name (files ! k))\<rparr>)"
proof (induction files arbitrary: i results)
  case Nil
  then show ?case by simp
next
  case (Cons f files)
  from Cons.prems obtain name code rest where
    name: "py_literal (wf_name f) = Some name" and
    code: "py_literal examCode = Some code" and
    rest: "analyze_from examCode (i + 1) files = Some rest" and
    results: "results =
       \<lparr>an_id = wf_id f, an_originalName = wf_name f,
         an_detectedType = analyze_document_type name,
         an_newName = generate_new_filename (analyze_document_type name) code (int i)
           @ ''.'' @ extension (wf_name f)\<rparr> # rest"
    by (auto simp: py_literal_detected Let_def split: option.splits)
  have n: "name = wf_name f" using name by (rule py_literal_Some)
  have c: "code = examCode" using code by (rule py_literal_Some)
  from Cons.IH [OF rest] have len: "length rest = length files"
    and at: "\<And>k. k < length files \<Longrightarrow> rest ! k =
          \<lparr>an_id = wf_id (files ! k), an_originalName = wf_name (files ! k),
            an_detectedType = analyze_document_type (wf_name (files ! k)),
            an_newName =
              generate_new_filename (analyze_document_type (wf_name (files ! k))) examCode
                (int (i + 1 + k))
              @ ''.'' @ extension (wf_name (files ! k))\<rparr>"
    by auto
  show ?case
  proof (intro conjI allI impI)
    show "length results = length (f # files)" using results len by simp
  next
    fix k assume k: "k < length (f # files)"
    show "results ! k =
          \<lparr>an_id = wf_id ((f # files) ! k), an_originalName = wf_name ((f # files) ! k),
            an_detectedType = analyze_document_type (wf_name ((f # files) ! k)),
            an_newName =
              generate_new_filename (analyze_document_type (wf_name ((f # files) ! k)))
                examCode (int (i + k))
              @ ''.'' @ extension (wf_name ((f # files) ! k))\<rparr>"
    proof (cases k)
      case 0
      then show ?thesis using results n c by simp
    next
      case (Suc k')
      with k have "k' < length files" by simp
      from at [OF this] show ?thesis using results Suc by simp
    qed
  qed
qed

lemma analyze_from_plain:
  assumes "py_literal examCode \<noteq> None"
    and "\<forall>f \<in> set files. py_literal (wf_name f) \<noteq> None"
  shows "analyze_from examCode i files \<noteq> None"
  using assms(2)
proof (induction files arbitrary: i)
  case Nil
  then show ?case by simp
next
  case (Cons f files)
  then have "analyze_from examCode (i + 1) files \<noteq> None" by simp
  moreover have "py_literal (wf_name f) \<noteq> None" using Cons.prems by simp
  ultimately show ?case
    using assms(1) by (auto simp: py_literal_detected Let_def split: option.splits)
qed

text \<open>
  C6. The generated name is the stem \<^verbatim>\<open>{examCode}_{typeNoun}\<close> of a known type and
  \<^verbatim>\<open>{examCode}_document\<close> for any other type, followed by \<^verbatim>\<open>_{index+1}\<close>
  exactly when the index is positive. The worker passes as index the position of the file
  in the submitted batch, whatever the types of the files before it. The three examples of
  the specification hold.
\<close>

theorem generate_new_filename_stem_and_batch_position:
  "generate_new_filename t exam_code i =
     exam_code @ ''_'' @ (case map_of type_nouns t of Some n \<Rightarrow> n | None \<Rightarrow> ''document'')
     @ (if i > 0 then ''_'' @ str_int (i + 1) else [])
   \<and> (py_literal examCode \<noteq> None \<and> (\<forall>f \<in> set files. py_literal (wf_name f) \<noteq> None)
        \<longrightarrow> analyze_files examCode files \<noteq> None)
   \<and> (analyze_files examCode files = Some results \<longrightarrow>
        length results = length files
        \<and> (\<forall>k < length files.
             an_newName (results ! k) =
               generate_new_filename (analyze_document_type (wf_name (files ! k))) examCode
                 (int k)
               @ ''.'' @ extension (wf_name (files ! k))))
   \<and> generate_new_filename ''photo'' ''EX01'' 0 = ''EX01_photograph''
   \<and> generate_new_filename ''photo'' ''EX01'' 1 = ''EX01_photograph_2''
   \<and> generate_new_filename ''unknown_type'' ''EX01'' 0 = ''EX01_document''"
proof -
  have ex1: "generate_new_filename ''photo'' ''EX01'' 0 = ''EX01_photograph''" by code_simp
  have ex2: "generate_new_filename ''photo'' ''EX01'' 1 = ''EX01_photograph_2''" by code_simp
  have ex3: "generate_new_filename ''unknown_type'' ''EX01'' 0 = ''EX01_document''" by code_simp
  have pos: "length results = length files
        \<and> (\<forall>k < length files.
             an_newName (results ! k) =
               generate_new_filename (analyze_document_type (wf_name (files ! k))) examCode
                 (int k)
               @ ''.'' @ extension (wf_name (files ! k)))"
    if "analyze_files examCode files = Some results"
    using analyze_from_positions [of examCode 0 files results] that
    by (simp add: analyze_files_def)
  have plain: "analyze_files examCode files \<noteq> None"
    if "py_literal examCode \<noteq> None" "\<forall>f \<in> set files. py_literal (wf_name f) \<noteq> None"
    unfolding analyze_files_def using that by (rule analyze_from_plain)
  from generate_new_filename_shape [of t exam_code i] pos plain ex1 ex2 ex3
  show ?thesis by blast
qed

theorem generate_new_filename_stem_and_batch_position_witness:
  "analyze_files ''EX01''
     [\<lparr>wf_id = ''a'', wf_name = ''photo.jpg''\<rparr>, \<lparr>wf_id = ''b'', wf_name = ''sign.png''\<rparr>]
   = Some
     [\<lparr>an_id = ''a'', an_originalName = ''photo.jpg'', an_detectedType = ''photo'',
        an_newName = ''EX01_photograph.jpg''\<rparr>,
      \<lparr>an_id = ''b'', an_originalName = ''sign.png'', an_detectedType = ''signature'',
        an_newName = ''EX01_signature_2.png''\<rparr>]
   \<and> ''EX01_signature_2.png''
      = generate_new_filename (analyze_document_type ''sign.png'') ''EX01'' (int 1)
        @ ''.'' @ extension ''sign.png''"
proof -
  let ?files = "[\<lparr>wf_id = ''a'', wf_name = ''photo.jpg''\<rparr>,
                 \<lparr>wf_id = ''b'', wf_name = ''sign.png''\<rparr>]"
  let ?results =
    "[\<lparr>an_id = ''a'', an_originalName = ''photo.jpg'', an_detectedType = ''photo'',
        an_newName = ''EX01_photograph.jpg''\<rparr>,
      \<lparr>an_id = ''b'', an_originalName = ''sign.png'', an_detectedType = ''signature'',
        an_newName = ''EX01_signature_2.png''\<rparr>]"
  have run: "analyze_files ''EX01'' ?files = Some ?results" by code_simp
  from generate_new_filename_stem_and_batch_position
         [of _ _ _ "''EX01''" ?files ?results] run
  have all: "\<forall>k < length ?files.
          an_newName (?results ! k) =
            generate_new_filename (analyze_document_type (wf_name (?files ! k))) ''EX01''
              (int k)
            @ ''.'' @ extension (wf_name (?files ! k))"
    by blast
  have "Suc 0 < length ?files" by simp
  with all have "an_newName (?results ! Suc 0) =
            generate_new_filename (analyze_document_type (wf_name (?files ! Suc 0))) ''EX01''
              (int (Suc 0))
            @ ''.'' @ extension (wf_name (?files ! Suc 0))"
    by blast
  with run show ?thesis by simp
qed

section \<open>Properties of the classification channel\<close>

lemma merge_result_id: "file_id (merge_result data f) = file_id f"
  by (simp add: merge_result_def split: option.splits)

lemma merge_result_absent:
  assumes "\<forall>r \<in> set data. an_id r \<noteq> file_id f"
  shows "merge_result data f = f"
proof -
  have "find (\<lambda>r. an_id r = file_id f) data = None"
    using assms by (simp add: find_None_iff)
  then show ?thesis by (simp add: merge_result_def)
qed

lemma merge_result_present:
  assumes "\<exists>r \<in> set data. an_id r = file_id f"
  shows "\<exists>r \<in> set data. an_id r = file_id f
           \<and> find (\<lambda>r. an_id r = file_id f) data = Some r
           \<and> merge_result data f =
               f\<lparr>detectedType := Some (an_detectedType r), newName := Some (an_newName r),
                 status := Completed\<rparr>"
proof (cases "find (\<lambda>r. an_id r = file_id f) data")
  case None
  with assms show ?thesis by (auto simp: find_None_iff)
next
  case (Some r)
  then have "r \<in> set data" "an_id r = file_id f"
    by (auto simp: find_Some_iff)
  with Some show ?thesis by (auto simp: merge_result_def)
qed

lemma initialize_calls: "calls (initialize s) = calls s"
  by (simp add: initialize_def)

lemma initialize_now: "now (initialize s) = now s"
  by (simp add: initialize_def)


lemma initialize_worker: "worker (initialize s)"
  by (simp add: initialize_def)

lemma analyzeDocuments_calls:
  "calls (analyzeDocuments files examCode s) =
     calls s @ [\<lparr>call_files = files, call_promise = Unsettled,
                 call_timeout = Armed (now s + 30000)\<rparr>]"
  by (simp add: analyzeDocuments_def Let_def initialize_worker initialize_calls initialize_now)

lemma analyzeDocuments_handler:
  "handler (analyzeDocuments files examCode s) = Some (length (calls s))"
  by (simp add: analyzeDocuments_def Let_def initialize_worker initialize_calls)

lemma analyzeDocuments_now: "now (analyzeDocuments files examCode s) = now s"
  by (simp add: analyzeDocuments_def Let_def initialize_worker initialize_now)


lemma onmessage_result:
  assumes "c < length (calls s)" "call_promise (calls s ! c) = Unsettled"
  shows "promise_of c (onmessage c (Result_message data) s) =
           Resolved (map (merge_result data) (call_files (calls s ! c)))"
  using assms
  by (simp add: onmessage_def promise_of_def resolve_def clearTimeout_def settle_def Let_def
      split: timer.splits)

lemma onmessage_other_call:
  "c' \<noteq> c \<Longrightarrow> calls (onmessage c m s) ! c' = calls s ! c'"
  by (cases m)
     (simp_all add: onmessage_def resolve_def reject_def clearTimeout_def Let_def)

lemma onmessage_length: "length (calls (onmessage c m s)) = length (calls s)"
  by (cases m) (simp_all add: onmessage_def resolve_def reject_def clearTimeout_def Let_def)


lemma step_length: "step s e = Some s' \<Longrightarrow> length (calls s) \<le> length (calls s')"
  by (cases e)
     (auto simp: step_def analyzeDocuments_calls onmessage_length onerror_def reject_def
        clearTimeout_def ontimeout_def split: option.splits timer.splits if_splits)

text \<open>A settled promise never changes again.\<close>

lemma step_settled:
  assumes "step s e = Some s'" "c < length (calls s)" "call_promise (calls s ! c) \<noteq> Unsettled"
  shows "call_promise (calls s' ! c) = call_promise (calls s ! c)"
proof (cases e)
  case (Call files examCode)
  with assms have "s' = analyzeDocuments files examCode s" by (simp add: step_def)
  with assms show ?thesis by (simp add: analyzeDocuments_calls nth_append)
next
  case (Message m)
  show ?thesis
  proof (cases "handler s")
    case None
    with Message assms show ?thesis by (simp add: step_def)
  next
    case (Some h)
    with Message assms have s': "s' = onmessage h m s" by (simp add: step_def)
    show ?thesis
    proof (cases "h = c")
      case True
      with assms s' show ?thesis
        by (cases m)
           (simp_all add: onmessage_def resolve_def reject_def clearTimeout_def settle_def
              Let_def split: timer.splits)
    next
      case False
      then show ?thesis using s' onmessage_other_call [of c h m s] by simp
    qed
  qed
next
  case Worker_error
  show ?thesis
  proof (cases "handler s")
    case None
    with Worker_error assms show ?thesis by (simp add: step_def)
  next
    case (Some h)
    with Worker_error assms have s': "s' = onerror h s" by (simp add: step_def)
    show ?thesis
    proof (cases "h = c")
      case True
      with assms s' show ?thesis
        by (simp add: onerror_def reject_def clearTimeout_def settle_def Let_def
            split: timer.splits)
    next
      case False
      then show ?thesis using s'
        by (simp add: onerror_def reject_def clearTimeout_def Let_def)
    qed
  qed
next
  case (Timeout h)
  with assms have s': "s' = ontimeout h s"
    by (auto simp: step_def split: if_splits timer.splits)
  show ?thesis
  proof (cases "h = c")
    case True
    with assms s' show ?thesis by (simp add: ontimeout_def reject_def settle_def)
  next
    case False
    then show ?thesis using s' by (simp add: ontimeout_def reject_def)
  qed
next
  case (Tick dt)
  with assms show ?thesis by (auto simp: step_def)
qed

lemma run_settled:
  "run s es = Some s' \<Longrightarrow> c < length (calls s) \<Longrightarrow> call_promise (calls s ! c) \<noteq> Unsettled \<Longrightarrow>
   call_promise (calls s' ! c) = call_promise (calls s ! c)"
proof (induction es arbitrary: s)
  case Nil
  then show ?case by simp
next
  case (Cons e es)
  from Cons.prems(1) obtain s1 where s1: "step s e = Some s1" and r: "run s1 es = Some s'"
    by (auto split: option.splits)
  from step_settled [OF s1 Cons.prems(2,3)] step_length [OF s1] Cons.prems
  have "c < length (calls s1)" "call_promise (calls s1 ! c) \<noteq> Unsettled"
       "call_promise (calls s1 ! c) = call_promise (calls s ! c)"
    by auto
  with Cons.IH [OF r] show ?case by simp
qed

text \<open>
  Events that are neither an answer of the worker nor the call's own timer leave the
  call as it is; time does not go back.
\<close>

lemma step_quiet:
  assumes "step s e = Some s'" "c < length (calls s)" "\<not> is_response e" "e \<noteq> Timeout c"
  shows "calls s' ! c = calls s ! c \<and> now s \<le> now s'"
proof (cases e)
  case (Call files examCode)
  with assms have "s' = analyzeDocuments files examCode s" by (simp add: step_def)
  with assms show ?thesis
    by (simp add: analyzeDocuments_calls analyzeDocuments_now nth_append)
next
  case (Timeout h)
  with assms have "s' = ontimeout h s" "h \<noteq> c"
    by (auto simp: step_def split: if_splits timer.splits)
  then show ?thesis by (simp add: ontimeout_def reject_def)
next
  case (Tick dt)
  with assms show ?thesis by (auto simp: step_def)
qed (use assms in auto)

lemma run_quiet:
  "run s es = Some s' \<Longrightarrow> c < length (calls s) \<Longrightarrow>
   \<forall>e \<in> set es. \<not> is_response e \<and> e \<noteq> Timeout c \<Longrightarrow>
   calls s' ! c = calls s ! c \<and> now s \<le> now s' \<and> c < length (calls s')"
proof (induction es arbitrary: s)
  case Nil
  then show ?case by simp
next
  case (Cons e es)
  from Cons.prems(1) obtain s1 where s1: "step s e = Some s1" and r: "run s1 es = Some s'"
    by (auto split: option.splits)
  from Cons.prems(3) have q: "\<not> is_response e" "e \<noteq> Timeout c" by auto
  from step_quiet [OF s1 Cons.prems(2) q] step_length [OF s1] Cons.prems(2)
  have "calls s1 ! c = calls s ! c" "now s \<le> now s1" "c < length (calls s1)" by auto
  moreover from Cons.IH [OF r \<open>c < length (calls s1)\<close>] Cons.prems(3)
  have "calls s' ! c = calls s1 ! c \<and> now s1 \<le> now s' \<and> c < length (calls s')" by simp
  ultimately show ?case by simp
qed

lemma ontimeout_rejects:
  assumes "c < length (calls s)" "call_promise (calls s ! c) = Unsettled"
  shows "promise_of c (ontimeout c s) = Rejected (JsError ''Document analysis timeout'')"
  using assms by (simp add: ontimeout_def reject_def settle_def promise_of_def)

lemma onerror_rejects:
  assumes "c < length (calls s)" "call_promise (calls s ! c) = Unsettled"
  shows "promise_of c (onerror c s) = Rejected JsErrorEvent"
  using assms
  by (simp add: onerror_def reject_def clearTimeout_def settle_def promise_of_def Let_def
      split: timer.splits)


lemma run_call_then_result:
  "run (analyzeDocuments files examCode s0) [Tick dt, Message (Result_message data)] =
     Some (onmessage (length (calls s0)) (Result_message data)
             ((analyzeDocuments files examCode s0)\<lparr>now := now s0 + dt\<rparr>))"
  by (simp add: step_def analyzeDocuments_handler analyzeDocuments_now)

lemma call_then_result_promise:
  "promise_of (length (calls s0))
     (onmessage (length (calls s0)) (Result_message data)
        ((analyzeDocuments files examCode s0)\<lparr>now := now s0 + dt\<rparr>))
   = Resolved (map (merge_result data) files)"
proof -
  let ?s1 = "(analyzeDocuments files examCode s0)\<lparr>now := now s0 + dt\<rparr>"
  have "length (calls s0) < length (calls ?s1)" by (simp add: analyzeDocuments_calls)
  moreover have "calls ?s1 ! length (calls s0) =
      \<lparr>call_files = files, call_promise = Unsettled, call_timeout = Armed (now s0 + 30000)\<rparr>"
    by (simp add: analyzeDocuments_calls)
  ultimately show ?thesis using onmessage_result [of "length (calls s0)" ?s1 data] by simp
qed

text \<open>
  C9. When the answer to a batch is dispatched while the call is outstanding, the promise
  of \<^verbatim>\<open>analyzeDocuments\<close> resolves with an array of the length of the input and
  with the same ids at the same positions; every record whose id occurs in the answer is
  the input record with \<^verbatim>\<open>detectedType\<close> and \<^verbatim>\<open>newName\<close> set from the
  first entry that carries its id and \<^verbatim>\<open>status\<close> set to \<^verbatim>\<open>completed\<close>, all
  other fields being those of the input.
\<close>

theorem analyzeDocuments_resolves_same_length_and_order:
  "\<exists>s2 updatedFiles.
     run (analyzeDocuments files examCode s0) [Tick dt, Message (Result_message data)] = Some s2
     \<and> promise_of (length (calls s0)) s2 = Resolved updatedFiles
     \<and> length updatedFiles = length files
     \<and> map file_id updatedFiles = map file_id files
     \<and> (\<forall>i < length files.
          (\<exists>r \<in> set data. an_id r = file_id (files ! i)) \<longrightarrow>
          (\<exists>r \<in> set data.
             an_id r = file_id (files ! i)
             \<and> find (\<lambda>r. an_id r = file_id (files ! i)) data = Some r
             \<and> updatedFiles ! i =
                 (files ! i)\<lparr>detectedType := Some (an_detectedType r),
                             newName := Some (an_newName r),
                             status := Completed\<rparr>))"
proof -
  let ?u = "map (merge_result data) files"
  have "map file_id ?u = map file_id files" by (simp add: merge_result_id)
  moreover have "\<exists>r \<in> set data.
             an_id r = file_id (files ! i)
             \<and> find (\<lambda>r. an_id r = file_id (files ! i)) data = Some r
             \<and> ?u ! i =
                 (files ! i)\<lparr>detectedType := Some (an_detectedType r),
                             newName := Some (an_newName r),
                             status := Completed\<rparr>"
    if "i < length files" "\<exists>r \<in> set data. an_id r = file_id (files ! i)" for i
    using merge_result_present [OF that(2)] that(1) by simp
  moreover have "length ?u = length files" by simp
  ultimately show ?thesis
    using run_call_then_result [where files = files and examCode = examCode and ?s0.0 = s0
        and dt = dt and data = data]
      call_then_result_promise [where files = files and examCode = examCode and ?s0.0 = s0
        and dt = dt and data = data]
    by blast
qed

theorem analyzeDocuments_resolves_same_length_and_order_witness:
  "\<exists>s2 updatedFiles.
     run (analyzeDocuments [sample_photo, sample_sign] ''EX01'' new_channel)
       [Tick 1000, Message (Result_message [sample_photo_result])] = Some s2
     \<and> promise_of 0 s2 = Resolved updatedFiles
     \<and> length updatedFiles = 2
     \<and> updatedFiles ! 0 =
         sample_photo\<lparr>detectedType := Some ''photo'', newName := Some ''EX01_photograph.jpg'',
                       status := Completed\<rparr>"
proof -
  let ?files = "[sample_photo, sample_sign]"
  let ?data = "[sample_photo_result]"
  have present: "\<exists>r \<in> set ?data. an_id r = file_id (?files ! 0)"
    by (simp add: sample_photo_def sample_photo_result_def)
  from analyzeDocuments_resolves_same_length_and_order
         [where files = ?files and examCode = "''EX01''" and ?s0.0 = new_channel
            and dt = 1000 and data = ?data]
  obtain s2 updatedFiles where
    r: "run (analyzeDocuments ?files ''EX01'' new_channel)
          [Tick 1000, Message (Result_message ?data)] = Some s2"
    and p: "promise_of (length (calls new_channel)) s2 = Resolved updatedFiles"
    and l: "length updatedFiles = length ?files"
    and u: "\<forall>i < length ?files.
          (\<exists>r \<in> set ?data. an_id r = file_id (?files ! i)) \<longrightarrow>
          (\<exists>r \<in> set ?data.
             an_id r = file_id (?files ! i)
             \<and> find (\<lambda>r. an_id r = file_id (?files ! i)) ?data = Some r
             \<and> updatedFiles ! i =
                 (?files ! i)\<lparr>detectedType := Some (an_detectedType r),
                             newName := Some (an_newName r),
                             status := Completed\<rparr>)"
    by blast
  have "0 < length ?files" by simp
  with u present have "\<exists>r \<in> set ?data. updatedFiles ! 0 =
                 (?files ! 0)\<lparr>detectedType := Some (an_detectedType r),
                             newName := Some (an_newName r),
                             status := Completed\<rparr>"
    by blast
  then have "updatedFiles ! 0 =
         sample_photo\<lparr>detectedType := Some ''photo'', newName := Some ''EX01_photograph.jpg'',
                       status := Completed\<rparr>"
    by (simp add: sample_photo_result_def)
  with r p l show ?thesis by (auto simp: new_channel_def)
qed

text \<open>
  C7. When the answer arrives, every input record whose id is absent from the entries of
  the answer is returned as it was: no type, no new name, no error mark.
\<close>

theorem analyzeDocuments_leaves_absent_ids_unmodified:
  "\<exists>s2 updatedFiles.
     run (analyzeDocuments files examCode s0) [Tick dt, Message (Result_message data)] = Some s2
     \<and> promise_of (length (calls s0)) s2 = Resolved updatedFiles
     \<and> length updatedFiles = length files
     \<and> (\<forall>i < length files.
          (\<forall>r \<in> set data. an_id r \<noteq> file_id (files ! i)) \<longrightarrow> updatedFiles ! i = files ! i)"
proof -
  let ?u = "map (merge_result data) files"
  have "?u ! i = files ! i"
    if "i < length files" "\<forall>r \<in> set data. an_id r \<noteq> file_id (files ! i)" for i
    using merge_result_absent [OF that(2)] that(1) by simp
  moreover have "length ?u = length files" by simp
  ultimately show ?thesis
    using run_call_then_result [where files = files and examCode = examCode and ?s0.0 = s0
        and dt = dt and data = data]
      call_then_result_promise [where files = files and examCode = examCode and ?s0.0 = s0
        and dt = dt and data = data]
    by blast
qed

theorem analyzeDocuments_leaves_absent_ids_unmodified_witness:
  "\<exists>s2 updatedFiles.
     run (analyzeDocuments [sample_photo, sample_sign] ''EX01'' new_channel)
       [Tick 1000, Message (Result_message [sample_photo_result])] = Some s2
     \<and> promise_of 0 s2 = Resolved updatedFiles
     \<and> updatedFiles ! 1 = sample_sign"
proof -
  let ?files = "[sample_photo, sample_sign]"
  let ?data = "[sample_photo_result]"
  have absent: "\<forall>r \<in> set ?data. an_id r \<noteq> file_id (?files ! 1)"
    by (simp add: sample_sign_def sample_photo_result_def)
  from analyzeDocuments_leaves_absent_ids_unmodified
         [where files = ?files and examCode = "''EX01''" and ?s0.0 = new_channel
            and dt = 1000 and data = ?data]
  obtain s2 updatedFiles where
    r: "run (analyzeDocuments ?files ''EX01'' new_channel)
          [Tick 1000, Message (Result_message ?data)] = Some s2"
    and p: "promise_of (length (calls new_channel)) s2 = Resolved updatedFiles"
    and u: "\<forall>i < length ?files.
          (\<forall>r \<in> set ?data. an_id r \<noteq> file_id (?files ! i)) \<longrightarrow> updatedFiles ! i = ?files ! i"
    by blast
  have "1 < length ?files" by simp
  with u absent have "updatedFiles ! 1 = ?files ! 1" by blast
  then have "updatedFiles ! 1 = sample_sign" by simp
  with r p show ?thesis by (auto simp: new_channel_def)
qed

text \<open>
  C5. The timer of a call is armed for 30000 ms after the call, whatever the batch. As
  long as the worker has not answered, the promise stays unsettled; the timer cannot fire
  before the 30000 ms have passed, and when it fires after them the promise is rejected
  with the time-out error. An error event of the worker rejects the promise as well. In
  both cases the promise stays rejected whatever happens later: no array of records is
  ever delivered for the batch.
\<close>

theorem analyzeDocuments_rejects_whole_batch:
  assumes "run (analyzeDocuments files examCode s0) es = Some s2"
    and "\<forall>e \<in> set es. \<not> is_response e \<and> e \<noteq> Timeout (length (calls s0))"
  shows "call_timeout (calls (analyzeDocuments files examCode s0) ! length (calls s0))
           = Armed (now s0 + 30000)
     \<and> promise_of (length (calls s0)) s2 = Unsettled
     \<and> (now s2 < now s0 + 30000 \<longrightarrow> step s2 (Timeout (length (calls s0))) = None)
     \<and> (now s0 + 30000 \<le> now s2 \<longrightarrow>
          (\<exists>s3. step s2 (Timeout (length (calls s0))) = Some s3
             \<and> promise_of (length (calls s0)) s3
                 = Rejected (JsError ''Document analysis timeout'')
             \<and> (\<forall>es' s4. run s3 es' = Some s4 \<longrightarrow>
                   promise_of (length (calls s0)) s4
                     = Rejected (JsError ''Document analysis timeout''))))
     \<and> (handler s2 = Some (length (calls s0)) \<longrightarrow>
          (\<exists>s3. step s2 Worker_error = Some s3
             \<and> promise_of (length (calls s0)) s3 = Rejected JsErrorEvent
             \<and> (\<forall>es' s4. run s3 es' = Some s4 \<longrightarrow>
                   promise_of (length (calls s0)) s4 = Rejected JsErrorEvent)))"
proof -
  let ?c = "length (calls s0)"
  let ?s1 = "analyzeDocuments files examCode s0"
  have c1: "?c < length (calls ?s1)" by (simp add: analyzeDocuments_calls)
  have k1: "calls ?s1 ! ?c =
      \<lparr>call_files = files, call_promise = Unsettled, call_timeout = Armed (now s0 + 30000)\<rparr>"
    by (simp add: analyzeDocuments_calls)
  from run_quiet [OF assms(1) c1 assms(2)]
  have k2: "calls s2 ! ?c = calls ?s1 ! ?c" and c2: "?c < length (calls s2)" by simp_all
  have unsettled: "call_promise (calls s2 ! ?c) = Unsettled" using k1 k2 by simp
  have armed: "call_timeout (calls s2 ! ?c) = Armed (now s0 + 30000)" using k1 k2 by simp
  have early: "step s2 (Timeout ?c) = None" if "now s2 < now s0 + 30000"
    using that c2 armed by (simp add: step_def)
  have late: "\<exists>s3. step s2 (Timeout ?c) = Some s3
             \<and> promise_of ?c s3 = Rejected (JsError ''Document analysis timeout'')
             \<and> (\<forall>es' s4. run s3 es' = Some s4 \<longrightarrow>
                   promise_of ?c s4 = Rejected (JsError ''Document analysis timeout''))"
    if "now s0 + 30000 \<le> now s2"
  proof -
    have st: "step s2 (Timeout ?c) = Some (ontimeout ?c s2)"
      using that c2 armed by (simp add: step_def)
    have rej: "promise_of ?c (ontimeout ?c s2) = Rejected (JsError ''Document analysis timeout'')"
      using c2 unsettled by (rule ontimeout_rejects)
    have len: "?c < length (calls (ontimeout ?c s2))"
      using c2 by (simp add: ontimeout_def reject_def)
    have "promise_of ?c s4 = Rejected (JsError ''Document analysis timeout'')"
      if "run (ontimeout ?c s2) es' = Some s4" for es' s4
      using run_settled [OF that len] rej by (simp add: promise_of_def)
    with st rej show ?thesis by blast
  qed
  have transport: "\<exists>s3. step s2 Worker_error = Some s3
             \<and> promise_of ?c s3 = Rejected JsErrorEvent
             \<and> (\<forall>es' s4. run s3 es' = Some s4 \<longrightarrow> promise_of ?c s4 = Rejected JsErrorEvent)"
    if "handler s2 = Some ?c"
  proof -
    have st: "step s2 Worker_error = Some (onerror ?c s2)"
      using that by (simp add: step_def)
    have rej: "promise_of ?c (onerror ?c s2) = Rejected JsErrorEvent"
      using c2 unsettled by (rule onerror_rejects)
    have len: "?c < length (calls (onerror ?c s2))"
      using c2 by (simp add: onerror_def reject_def clearTimeout_def)
    have "promise_of ?c s4 = Rejected JsErrorEvent"
      if "run (onerror ?c s2) es' = Some s4" for es' s4
      using run_settled [OF that len] rej by (simp add: promise_of_def)
    with st rej show ?thesis by blast
  qed
  from k1 unsettled early late transport show ?thesis
    by (simp add: promise_of_def)
qed

theorem analyzeDocuments_rejects_whole_batch_witness:
  "(\<exists>s2. run (analyzeDocuments [sample_photo] ''EX01'' new_channel) [Tick 29999] = Some s2
        \<and> now s2 < now new_channel + 30000
        \<and> promise_of 0 s2 = Unsettled \<and> step s2 (Timeout 0) = None)
   \<and> (\<exists>s2 s3. run (analyzeDocuments [sample_photo] ''EX01'' new_channel) [Tick 30000] = Some s2
        \<and> now new_channel + 30000 \<le> now s2
        \<and> step s2 (Timeout 0) = Some s3
        \<and> promise_of 0 s3 = Rejected (JsError ''Document analysis timeout''))
   \<and> (\<exists>s2 s3. run (analyzeDocuments [sample_photo] ''EX01'' new_channel) [Tick 5] = Some s2
        \<and> handler s2 = Some 0
        \<and> step s2 Worker_error = Some s3
        \<and> promise_of 0 s3 = Rejected JsErrorEvent)"
proof -
  let ?s1 = "analyzeDocuments [sample_photo] ''EX01'' new_channel"
  have c: "length (calls new_channel) = 0" by (simp add: new_channel_def)
  have n: "now new_channel = 0" by (simp add: new_channel_def)
  have h: "handler ?s1 = Some 0" by (simp add: analyzeDocuments_handler c)
  have t: "now ?s1 = 0" by (simp add: analyzeDocuments_now n)
  have r: "run ?s1 [Tick dt] = Some (?s1\<lparr>now := dt\<rparr>)" for dt
    by (simp add: step_def t)
  have q: "\<forall>e \<in> set [Tick dt]. \<not> is_response e \<and> e \<noteq> Timeout (length (calls new_channel))"
    for dt by simp
  from analyzeDocuments_rejects_whole_batch [OF r [of 29999] q]
  have a: "promise_of 0 (?s1\<lparr>now := 29999\<rparr>) = Unsettled
           \<and> step (?s1\<lparr>now := 29999\<rparr>) (Timeout 0) = None"
    by (simp add: c n)
  from analyzeDocuments_rejects_whole_batch [OF r [of 30000] q]
  have b: "\<exists>s3. step (?s1\<lparr>now := 30000\<rparr>) (Timeout 0) = Some s3
             \<and> promise_of 0 s3 = Rejected (JsError ''Document analysis timeout'')"
    by (simp add: c n) blast
  from analyzeDocuments_rejects_whole_batch [OF r [of 5] q] h
  have d: "\<exists>s3. step (?s1\<lparr>now := 5\<rparr>) Worker_error = Some s3
             \<and> promise_of 0 s3 = Rejected JsErrorEvent"
    by (simp add: c n) blast
  from a b d r h show ?thesis by (simp add: n)
qed




section \<open>Properties of the number model\<close>

lemma pow2_powi: "pow2 e = 2 powi e"
  by (simp add: pow2_def power_int_def inverse_eq_divide power_one_over)

lemma pow2_pos: "0 < pow2 e"
  by (simp add: pow2_powi)

lemma pow2_add: "pow2 (a + b) = pow2 a * pow2 b"
  by (simp add: pow2_powi power_int_add)

lemma pow2_nat: "pow2 (int n) = 2 ^ n"
  by (simp add: pow2_powi)

lemma pow2_less_imp: "pow2 a < pow2 b \<Longrightarrow> a < b"
proof (rule ccontr)
  assume l: "pow2 a < pow2 b" and "\<not> a < b"
  then have "b \<le> a" by simp
  then have "pow2 b \<le> pow2 a" unfolding pow2_powi by (rule power_int_increasing) simp
  with l show False by simp
qed

lemma round_half_even_le: "x \<le> of_int n \<Longrightarrow> round_half_even x \<le> n"
proof -
  assume a: "x \<le> of_int n"
  then have fl: "\<lfloor>x\<rfloor> \<le> n" by (simp add: floor_le_iff)
  show ?thesis
  proof (cases "\<lfloor>x\<rfloor> = n")
    case True
    then have "of_int n \<le> x" by (metis of_int_floor_le)
    with a have "x = of_int n" by simp
    then show ?thesis by (simp add: round_half_even_def)
  next
    case False
    with fl have "\<lfloor>x\<rfloor> + 1 \<le> n" by simp
    then show ?thesis by (auto simp: round_half_even_def Let_def)
  qed
qed

lemma round_half_even_ge: "of_int n \<le> x \<Longrightarrow> n \<le> round_half_even x"
proof -
  assume "of_int n \<le> x"
  then have "n \<le> \<lfloor>x\<rfloor>" by (simp add: le_floor_iff)
  then show ?thesis by (auto simp: round_half_even_def Let_def)
qed

lemma binade_le:
  assumes "0 < x"
  shows "pow2 (binade x) \<le> x"
proof -
  obtain p q where pq: "quotient_of x = (p, q)" by (cases "quotient_of x")
  then have q: "0 < q" by (rule quotient_of_denom_pos)
  from pq have x: "x = of_int p / of_int q" by (rule quotient_of_div)
  with assms q have p: "0 < p" by (simp add: zero_less_divide_iff)
  let ?e = "bitlen p - bitlen q"
  show ?thesis
  proof (cases "pow2 ?e \<le> x")
    case True
    with pq show ?thesis by (simp add: binade_def)
  next
    case False
    with pq have b: "binade x = ?e - 1" by (simp add: binade_def)
    from bitlen_bounds [OF p] have lo: "2 ^ nat (bitlen p - 1) \<le> p" by simp
    from bitlen_bounds [OF q] have hi: "q < 2 ^ nat (bitlen q)" by simp
    have bp: "1 \<le> bitlen p" using p by (simp add: bitlen_alt_def)
    have bq: "0 \<le> bitlen q" by (rule bitlen_nonneg)
    from lo have lo': "(2::rat) ^ nat (bitlen p - 1) \<le> of_int p"
      by (metis of_int_le_iff of_int_numeral of_int_power)
    from hi have hi': "(of_int q :: rat) \<le> 2 ^ nat (bitlen q)"
      by (metis less_imp_le of_int_le_iff of_int_numeral of_int_power)
    have "pow2 (?e - 1) = pow2 (bitlen p - 1) / pow2 (bitlen q)"
      using pow2_add [of "?e - 1" "bitlen q"] pow2_pos [of "bitlen q"]
      by (simp add: field_simps)
    also have "\<dots> = 2 ^ nat (bitlen p - 1) / 2 ^ nat (bitlen q)"
      using bp bq by (simp add: pow2_def)
    also have "\<dots> \<le> of_int p / of_int q"
      using lo' hi' q p by (intro frac_le) simp_all
    finally show ?thesis using b x by simp
  qed
qed

lemma to_double_nonneg: "0 \<le> x \<Longrightarrow> 0 \<le> to_double x"
proof -
  assume x: "0 \<le> x"
  let ?u = "pow2 (binade \<bar>x\<bar> - 52)"
  have "of_int 0 \<le> x / ?u" using x pow2_pos [of "binade \<bar>x\<bar> - 52"] by simp
  then have "0 \<le> round_half_even (x / ?u)" by (rule round_half_even_ge)
  then show ?thesis
    using pow2_pos [of "binade \<bar>x\<bar> - 52"] by (simp add: to_double_def Let_def)
qed

text \<open>
  Rounding does not go above a bound that lies on the grid of its own binade (and so on
  the grid of every lower one).
\<close>

lemma to_double_le:
  assumes x: "0 < x" and xb: "x \<le> b"
    and b: "b = of_int m * pow2 (E - 52)" and bE: "b < pow2 (E + 1)"
  shows "to_double x \<le> b"
proof -
  let ?e = "binade x"
  let ?u = "pow2 (?e - 52)"
  have u: "0 < ?u" by (rule pow2_pos)
  have "pow2 ?e \<le> x" using x by (rule binade_le)
  with xb bE have "pow2 ?e < pow2 (E + 1)" by simp
  then have eE: "?e \<le> E" using pow2_less_imp [of ?e "E + 1"] by simp
  then have k: "int (nat (E - ?e)) = E - ?e" by simp
  have "pow2 (E - ?e) = 2 ^ nat (E - ?e)" using pow2_nat [of "nat (E - ?e)"] by (simp only: k)
  moreover have "pow2 (E - 52) = pow2 (E - ?e) * ?u"
    using pow2_add [of "E - ?e" "?e - 52"] by simp
  ultimately have bu: "b = of_int (m * 2 ^ nat (E - ?e)) * ?u"
    using b by simp
  have "x / ?u \<le> b / ?u" using xb u by (simp add: divide_right_mono)
  also have "b / ?u = of_int (m * 2 ^ nat (E - ?e))" using bu u by simp
  finally have "round_half_even (x / ?u) \<le> m * 2 ^ nat (E - ?e)"
    by (rule round_half_even_le)
  then have "(of_int (round_half_even (x / ?u)) :: rat) \<le> of_int (m * 2 ^ nat (E - ?e))"
    by (simp only: of_int_le_iff)
  then have "of_int (round_half_even (x / ?u)) * ?u \<le> of_int (m * 2 ^ nat (E - ?e)) * ?u"
    using u by (simp only: mult_le_cancel_right_pos)
  with bu x show ?thesis by (simp add: to_double_def Let_def)
qed

lemma percent_zero: "percent 0 total_n = 0"
  by (simp add: percent_def js_div_def js_mul_def to_double_def)

lemma percent_bounds:
  assumes n: "total_n < 2 ^ 32" and i: "i < total_n"
  shows "0 \<le> percent i total_n \<and> percent i total_n < 100"
proof -
  let ?x = "(of_nat i :: rat) / of_nat total_n"
  let ?r = "js_div (of_nat i) (of_nat total_n)"
  let ?b1 = "(4294967295::rat) / 4294967296"
  have x0: "0 \<le> ?x" by simp
  then have r0: "0 \<le> ?r" unfolding js_div_def by (rule to_double_nonneg)
  then have "0 \<le> ?r * 100" by simp
  then have lower: "0 \<le> percent i total_n"
    unfolding percent_def js_mul_def by (rule to_double_nonneg)
  have r1: "?r \<le> ?b1"
  proof (cases "i = 0")
    case True
    then show ?thesis by (simp add: js_div_def to_double_def)
  next
    case False
    with i have xpos: "0 < ?x" by simp
    have "int i + 1 \<le> int total_n" "int total_n \<le> 4294967295" using i n by simp_all
    then have "rat_of_nat i + 1 \<le> of_nat total_n" "rat_of_nat total_n \<le> 4294967295"
      by (metis of_int_of_nat_eq of_int_le_iff of_int_add of_int_1,
          metis of_int_of_nat_eq of_int_le_iff of_int_numeral)
    then have xb: "?x \<le> ?b1" using i by (simp add: field_simps)
    have g: "?b1 = of_int (4294967295 * 2 ^ 21) * pow2 (-1 - 52)"
      by (simp add: pow2_def)
    have "?b1 < pow2 (-1 + 1)" by (simp add: pow2_def)
    from to_double_le [OF xpos xb g this] show ?thesis by (simp add: js_div_def)
  qed
  have upper: "percent i total_n < 100"
  proof (cases "?r = 0")
    case True
    then show ?thesis by (simp add: percent_def js_mul_def to_double_def)
  next
    case False
    with r0 have ypos: "0 < ?r * 100" by simp
    let ?b2 = "(107374182375::rat) / 1073741824"
    have yb: "?r * 100 \<le> ?b2" using r1 by simp
    have g: "?b2 = of_int (107374182375 * 2 ^ 16) * pow2 (6 - 52)"
      by (simp add: pow2_def)
    have "?b2 < pow2 (6 + 1)" by (simp add: pow2_def)
    from to_double_le [OF ypos yb g this] have "percent i total_n \<le> ?b2"
      by (simp add: percent_def js_mul_def)
    then show ?thesis by simp
  qed
  from lower upper show ?thesis ..
qed

section \<open>Properties of the formatting orchestrator\<close>

lemma format_loop_unfold:
  "i \<le> length files \<Longrightarrow>
   format_loop eng examConfig onProgress files i r =
     \<lparr>formattedFiles = formattedFiles r @ map (format_record eng examConfig) (drop i files),
      effects = effects r @
        concat (map (\<lambda>j. (if onProgress then [Progress (percent j (length files))] else [])
                           @ [Process j]) [i..<length files])\<rparr>"
proof (induction eng examConfig onProgress files i r rule: format_loop.induct)
  case (1 eng examConfig onProgress files i r)
  show ?case
  proof (cases "i < length files")
    case True
    then have d: "drop i files = files ! i # drop (i + 1) files"
      by (simp add: Cons_nth_drop_Suc)
    have u: "[i..<length files] = i # [i + 1..<length files]"
      using True by (simp add: upt_conv_Cons)
    from True have "i + 1 \<le> length files" by simp
    from "1.IH" [OF True this] show ?thesis
      using True by (subst format_loop.simps) (simp add: format_step_def d u)
  next
    case False
    with "1.prems" have "i = length files" by simp
    then show ?thesis by (subst format_loop.simps) simp
  qed
qed

lemma load_formatter_ready:
  "engine_ready load svc examConfig eng \<Longrightarrow>
   \<exists>svc1. load_formatter load svc = Inr (eng, svc1) \<and> set_config eng examConfig = None"
  by (auto simp: engine_ready_def load_formatter_def)

lemma formatDocuments_ready:
  assumes "engine_ready load svc examConfig eng"
  shows "returned (formatDocuments load svc files examConfig onProgress)
           = Resolved (map (format_record eng examConfig) files)
       \<and> observed (formatDocuments load svc files examConfig onProgress)
           = concat (map (\<lambda>j. (if onProgress then [Progress (percent j (length files))] else [])
                               @ [Process j]) [0..<length files])
             @ (if onProgress then [Progress 100] else [])"
proof -
  from load_formatter_ready [OF assms] obtain svc1 where
    "load_formatter load svc = Inr (eng, svc1)" "set_config eng examConfig = None" by blast
  then show ?thesis
    by (simp add: formatDocuments_def Let_def format_loop_unfold)
qed


lemma progress_values_append:
  "progress_values (xs @ ys) = progress_values xs @ progress_values ys"
  by (induction xs rule: progress_values.induct) auto

lemma progress_values_loop:
  "progress_values (concat (map (\<lambda>j. [Progress (g j), Process j]) js)) = map g js"
  by (induction js) auto





lemma observed_with_callback:
  assumes "engine_ready load svc examConfig eng"
  shows "observed (formatDocuments load svc files examConfig True)
           = concat (map (\<lambda>i. [Progress (percent i (length files)), Process i])
                      [0..<length files])
             @ [Progress 100]"
  using formatDocuments_ready [OF assms, of files True] by simp

lemma progress_values_with_callback:
  assumes "engine_ready load svc examConfig eng"
  shows "progress_values (observed (formatDocuments load svc files examConfig True))
           = map (\<lambda>i. percent i (length files)) [0..<length files] @ [100]"
  unfolding observed_with_callback [OF assms] progress_values_append
  by (simp add: progress_values_loop)

text \<open>
  C4, as stated, fails: the argument of the callback is \<^verbatim>\<open>(i / total) * 100\<close> as
  computed on doubles, with no rounding to an integer. For the second of three records it
  is the double nearest to 33.33333333333333, not the floor of \<^verbatim>\<open>1 / 3 * 100\<close>, which is 33.
\<close>

theorem progress_not_floored_counterexample:
  "progress_values
     (observed (formatDocuments (Inr sample_engine) \<lparr>formatter = None\<rparr>
                  [classified_photo, classified_sign, classified_photo] sample_config True))
     ! 1 = 2345624805922133 / 70368744177664
   \<and> of_int \<lfloor>(1::rat) / 3 * 100\<rfloor> = (33::rat)
   \<and> (2345624805922133::rat) / 70368744177664 \<noteq> 33"
proof -
  have ready: "engine_ready (Inr sample_engine) \<lparr>formatter = None\<rparr> sample_config sample_engine"
    by (simp add: engine_ready_def sample_engine_def)
  have p: "percent (Suc 0) (Suc (Suc (Suc 0))) = 2345624805922133 / 70368744177664"
    by code_simp
  have "progress_values
     (observed (formatDocuments (Inr sample_engine) \<lparr>formatter = None\<rparr>
                  [classified_photo, classified_sign, classified_photo] sample_config True))
     ! 1 = percent (Suc 0) (Suc (Suc (Suc 0)))"
    unfolding progress_values_with_callback [OF ready]
    by (simp add: nth_append)
  moreover have "\<lfloor>(1::rat) / 3 * 100\<rfloor> = 33" unfolding floor_eq_iff by simp
  ultimately show ?thesis using p by simp
qed

text \<open>
  C4 (amended). With the engine loaded and configured and the callback supplied, for a
  batch of size \<open>total\<close> (below \<open>2\<^sup>3\<^sup>2\<close>, as every JavaScript array is) the service
  calls the progress callback with the number \<^verbatim>\<open>(i / total) * 100\<close>, not floored,
  before it starts on record \<open>i\<close>, and with 100 after the last record. Every value
  passed lies between 0 and 100, those passed inside the loop are below 100, and for a
  non-empty batch the first call reports 0.
\<close>

theorem formatDocuments_reports_percent_before_each_record:
  assumes "engine_ready load svc examConfig eng"
    and "length files < 2 ^ 32"
  shows "observed (formatDocuments load svc files examConfig True)
           = concat (map (\<lambda>i. [Progress (percent i (length files)), Process i])
                      [0..<length files])
             @ [Progress 100]
     \<and> percent i (length files) = js_mul (js_div (of_nat i) (of_nat (length files))) 100
     \<and> (\<forall>i < length files. 0 \<le> percent i (length files) \<and> percent i (length files) < 100)
     \<and> (\<forall>v \<in> set (progress_values (observed (formatDocuments load svc files examConfig True))).
           0 \<le> v \<and> v \<le> 100)
     \<and> (0 < length files \<longrightarrow>
           hd (observed (formatDocuments load svc files examConfig True)) = Progress 0)"
proof -
  have b: "0 \<le> percent i (length files) \<and> percent i (length files) < 100"
    if "i < length files" for i
    using assms(2) that by (rule percent_bounds)
  have v: "0 \<le> v \<and> v \<le> 100"
    if "v \<in> set (progress_values (observed (formatDocuments load svc files examConfig True)))"
    for v
  proof -
    from that consider i where "i < length files" "v = percent i (length files)" | "v = 100"
      unfolding progress_values_with_callback [OF assms(1)] by auto
    then show ?thesis
    proof cases
      case 1
      with b [of i] show ?thesis by simp
    next
      case 2
      then show ?thesis by simp
    qed
  qed
  have h: "hd (observed (formatDocuments load svc files examConfig True)) = Progress 0"
    if "0 < length files"
    unfolding observed_with_callback [OF assms(1)]
    using that by (simp add: upt_conv_Cons percent_zero)
  from observed_with_callback [OF assms(1)] b v h show ?thesis
    by (simp add: percent_def)
qed

theorem formatDocuments_reports_percent_before_each_record_witness:
  "engine_ready (Inr sample_engine) \<lparr>formatter = None\<rparr> sample_config sample_engine
   \<and> length [classified_photo, classified_sign] < 2 ^ 32
   \<and> observed (formatDocuments (Inr sample_engine) \<lparr>formatter = None\<rparr>
                 [classified_photo, classified_sign] sample_config True)
      = [Progress 0, Process 0, Progress 50, Process 1, Progress 100]"
proof -
  let ?files = "[classified_photo, classified_sign]"
  have ready: "engine_ready (Inr sample_engine) \<lparr>formatter = None\<rparr> sample_config sample_engine"
    by (simp add: engine_ready_def sample_engine_def)
  have small: "length ?files < 2 ^ 32" by simp
  have p0: "percent 0 (Suc (Suc 0)) = 0" by (rule percent_zero)
  have p1: "percent (Suc 0) (Suc (Suc 0)) = 50" by code_simp
  from formatDocuments_reports_percent_before_each_record [OF ready small]
  have "observed (formatDocuments (Inr sample_engine) \<lparr>formatter = None\<rparr> ?files sample_config
          True)
        = concat (map (\<lambda>i. [Progress (percent i (length ?files)), Process i])
                   [0..<length ?files])
          @ [Progress 100]"
    by blast
  then have "observed (formatDocuments (Inr sample_engine) \<lparr>formatter = None\<rparr> ?files
                sample_config True)
        = [Progress (percent 0 (Suc (Suc 0))), Process 0,
           Progress (percent (Suc 0) (Suc (Suc 0))), Process 1, Progress 100]"
    by (simp add: upt_rec)
  with ready small p0 p1 show ?thesis by simp
qed

text \<open>
  C8. With the engine loaded and configured and the callback supplied, the last thing the
  service does is to call the callback with 100, and no other call of the callback has
  the argument 100: the values passed inside the loop are below 100. This holds whatever
  the number of records that failed, for the empty batch as well.
\<close>

theorem formatDocuments_reports_100_once_at_the_end:
  assumes "engine_ready load svc examConfig eng"
    and "length files < 2 ^ 32"
  shows "last (observed (formatDocuments load svc files examConfig True)) = Progress 100
     \<and> last (progress_values (observed (formatDocuments load svc files examConfig True))) = 100
     \<and> count_list (progress_values (observed (formatDocuments load svc files examConfig True)))
          100 = 1
     \<and> length (progress_values (observed (formatDocuments load svc files examConfig True)))
          = length files + 1"
proof -
  let ?vs = "map (\<lambda>i. percent i (length files)) [0..<length files]"
  have "v \<noteq> 100" if "v \<in> set ?vs" for v
  proof -
    from that obtain i where "i < length files" "v = percent i (length files)" by auto
    with percent_bounds [OF assms(2), of i] show ?thesis by simp
  qed
  then have "count_list ?vs 100 = 0" by (auto simp: count_list_0_iff)
  then have "count_list (?vs @ [100]) 100 = 1" by simp
  then show ?thesis
    unfolding progress_values_with_callback [OF assms(1)]
    by (simp add: observed_with_callback [OF assms(1)])
qed

theorem formatDocuments_reports_100_once_at_the_end_witness:
  "engine_ready (Inr terse_engine) \<lparr>formatter = None\<rparr> sample_config terse_engine
   \<and> length [classified_sign, classified_sign] < 2 ^ 32
   \<and> last (progress_values
          (observed (formatDocuments (Inr terse_engine) \<lparr>formatter = None\<rparr>
                       [classified_sign, classified_sign] sample_config True))) = 100
   \<and> count_list
        (progress_values
          (observed (formatDocuments (Inr terse_engine) \<lparr>formatter = None\<rparr>
                       [classified_sign, classified_sign] sample_config True))) 100 = 1"
proof -
  have ready: "engine_ready (Inr terse_engine) \<lparr>formatter = None\<rparr> sample_config terse_engine"
    by (simp add: engine_ready_def terse_engine_def)
  have small: "length [classified_sign, classified_sign] < 2 ^ 32" by simp
  from formatDocuments_reports_100_once_at_the_end [OF ready small] ready small
  show ?thesis by blast
qed

end
